theory Spec2Isabelle
  imports Complex_Main "HOL-Library.Multiset" "HOL-Library.AList"
begin

section \<open>LaCAM and LaCAM2: the planner of \<open>planner.cpp\<close>\<close>

text \<open>
  Two planners live in the repository: \<open>lacam/src/planner.cpp\<close> (called LaCAM below,
  definitions with suffix \<open>1\<close>) and \<open>lacam2/src/planner.cpp\<close> (LaCAM2, suffix \<open>2\<close>).

  Conventions of the embedding.
  \<^item> A \<open>Vertex*\<close> is the vertex id (a \<open>nat\<close>), an \<open>Agent*\<close> the agent id, a node pointer
    the index of the node in the store of all nodes ever allocated; \<open>nullptr\<close> is \<open>None\<close>.
  \<^item> \<open>uint\<close> costs are \<open>nat\<close>; \<open>float\<close> values are \<open>real\<close> (rounding is not modelled).
  \<^item> What the planner takes from outside \<open>planner.cpp\<close> is a field of the record \<open>Env\<close>:
    the distance table, \<open>std::sort\<close>, \<open>std::shuffle\<close>, \<open>get_random_float\<close>, the order in
    which a node's \<open>neighbor\<close> container is iterated, and the constant \<open>FLG_SWAP\<close>.
  \<^item> The deadline is the number of times \<open>is_expired\<close> answers \<open>false\<close>.
\<close>

subsection \<open>Instance, objective, environment\<close>

datatype Objective = OBJ_NONE | OBJ_MAKESPAN | OBJ_SUM_OF_LOSS

type_synonym Config = "nat list"

record Instance =
  ins_G :: "nat list list"
  ins_N :: nat
  starts :: Config
  goals :: Config

record 'r Env =
  D_get :: "nat \<Rightarrow> nat \<Rightarrow> nat"
  std_sort :: "(nat \<Rightarrow> nat \<Rightarrow> bool) \<Rightarrow> nat list \<Rightarrow> nat list"
  std_shuffle :: "'r \<Rightarrow> nat list \<Rightarrow> nat list \<times> 'r"
  get_random_float :: "'r option \<Rightarrow> real \<times> 'r option"
  neighbor_iteration :: "nat list \<Rightarrow> nat list"
  FLG_SWAP :: bool

text \<open>\<open>v->neighbor\<close>: the adjacency list of vertex \<open>v\<close>.\<close>

definition neighbor_of :: "Instance \<Rightarrow> nat \<Rightarrow> nat list" where
  "neighbor_of ins v = ins_G ins ! v"

subsection \<open>Cost functions\<close>

text \<open>\<open>Planner::get_edge_cost(const Config&, const Config&)\<close> of LaCAM.\<close>

definition get_edge_cost1 :: "Instance \<Rightarrow> Objective \<Rightarrow> Config \<Rightarrow> Config \<Rightarrow> nat" where
  "get_edge_cost1 ins objective C1 C2 =
     (if objective = OBJ_SUM_OF_LOSS then
        fold (\<lambda>i cost. if C1 ! i \<noteq> goals ins ! i \<or> C2 ! i \<noteq> goals ins ! i
                        then cost + 1 else cost) [0..<ins_N ins] 0
      else 1)"

text \<open>\<open>Planner::get_edge_cost(const Config&, const Config&)\<close> of LaCAM2.\<close>

definition get_edge_cost2 :: "Instance \<Rightarrow> Objective \<Rightarrow> Config \<Rightarrow> Config \<Rightarrow> nat" where
  "get_edge_cost2 ins objective C1 C2 =
     (if objective = OBJ_NONE then
        fold (\<lambda>i cost. if C1 ! i \<noteq> C2 ! i then cost + 1 else cost) [0..<ins_N ins] 0
      else if objective = OBJ_SUM_OF_LOSS then
        fold (\<lambda>i cost. if C1 ! i \<noteq> goals ins ! i \<or> C2 ! i \<noteq> goals ins ! i
                        then cost + 1 else cost) [0..<ins_N ins] 0
      else 1)"

text \<open>
  Addition of two \<open>uint\<close>, 32 bits wide: it wraps modulo \<open>2^32\<close>. The second equation
  computes the same value on binary integers.
\<close>

definition uint_add :: "nat \<Rightarrow> nat \<Rightarrow> nat" where
  "uint_add a b = (a + b) mod 2 ^ 32"

lemma uint_add_code [code]: "uint_add a b = nat ((int a + int b) mod 4294967296)"
proof -
  have "(int a + int b) mod 4294967296 = int ((a + b) mod 4294967296)"
    by (simp add: zmod_int)
  then have "nat ((int a + int b) mod 4294967296) = (a + b) mod 4294967296"
    by (simp only: nat_int)
  then show ?thesis by (simp add: uint_add_def)
qed

text \<open>
  \<open>Planner::get_h_value\<close> of LaCAM: no branch for \<open>OBJ_NONE\<close>, the cost stays 0. The
  accumulator is \<open>uint cost\<close>: \<open>cost += D.get(i, C[i])\<close> wraps (\<open>std::max\<close> of two \<open>uint\<close> does
  not).
\<close>

definition get_h_value1 :: "'r Env \<Rightarrow> Instance \<Rightarrow> Objective \<Rightarrow> Config \<Rightarrow> nat" where
  "get_h_value1 env ins objective C =
     (if objective = OBJ_MAKESPAN then
        fold (\<lambda>i cost. max cost (D_get env i (C ! i))) [0..<ins_N ins] 0
      else if objective = OBJ_SUM_OF_LOSS then
        fold (\<lambda>i cost. uint_add cost (D_get env i (C ! i))) [0..<ins_N ins] 0
      else 0)"

text \<open>
  \<open>Planner::get_h_value\<close> of LaCAM2: the second branch is a plain \<open>else\<close>; the accumulator
  is the same \<open>uint cost\<close>.
\<close>

definition get_h_value2 :: "'r Env \<Rightarrow> Instance \<Rightarrow> Objective \<Rightarrow> Config \<Rightarrow> nat" where
  "get_h_value2 env ins objective C =
     (if objective = OBJ_MAKESPAN then
        fold (\<lambda>i cost. max cost (D_get env i (C ! i))) [0..<ins_N ins] 0
      else
        fold (\<lambda>i cost. uint_add cost (D_get env i (C ! i))) [0..<ins_N ins] 0)"

subsection \<open>Agents and the planner's scratch tables\<close>

text \<open>
  \<open>struct Agent\<close>: the id is the index in \<open>A\<close> (\<open>A[i] = new Agent(i)\<close>), both vertex
  pointers start as \<open>nullptr\<close>.
\<close>

record Agent =
  v_now :: "nat option"
  v_next :: "nat option"

text \<open>
  The members of \<open>Planner\<close> that \<open>get_new_config\<close> and \<open>funcPIBT\<close> work on. \<open>C_next[i]\<close> is an
  \<open>std::array\<close> of five vertex pointers: a vertex has at most four neighbours on the grids the
  planner is built for. The model stores the rows as lists; \<open>funcPIBT\<close>, the only function
  that writes them, has no result at a vertex with more than four neighbours (see there),
  so no row ever holds more than five entries.
\<close>

record 'r Planner =
  MT :: "'r option"
  C_next :: "nat list list"
  tie_breakers :: "real list"
  Agents :: "Agent list"
  occupied_now :: "nat option list"
  occupied_next :: "nat option list"

definition init_Planner :: "Instance \<Rightarrow> 'r option \<Rightarrow> 'r Planner" where
  "init_Planner ins mt =
     \<lparr>MT = mt,
      C_next = replicate (ins_N ins) [],
      tie_breakers = replicate (length (ins_G ins)) 0,
      Agents = replicate (ins_N ins) \<lparr>v_now = None, v_next = None\<rparr>,
      occupied_now = replicate (length (ins_G ins)) None,
      occupied_next = replicate (length (ins_G ins)) None\<rparr>"

definition set_v_now :: "nat \<Rightarrow> nat option \<Rightarrow> 'r Planner \<Rightarrow> 'r Planner" where
  "set_v_now a v P = P\<lparr>Agents := (Agents P)[a := (Agents P ! a)\<lparr>v_now := v\<rparr>]\<rparr>"

definition set_v_next :: "nat \<Rightarrow> nat option \<Rightarrow> 'r Planner \<Rightarrow> 'r Planner" where
  "set_v_next a v P = P\<lparr>Agents := (Agents P)[a := (Agents P ! a)\<lparr>v_next := v\<rparr>]\<rparr>"

definition set_occupied_now :: "nat \<Rightarrow> nat option \<Rightarrow> 'r Planner \<Rightarrow> 'r Planner" where
  "set_occupied_now v a P = P\<lparr>occupied_now := (occupied_now P)[v := a]\<rparr>"

definition set_occupied_next :: "nat \<Rightarrow> nat option \<Rightarrow> 'r Planner \<Rightarrow> 'r Planner" where
  "set_occupied_next v a P = P\<lparr>occupied_next := (occupied_next P)[v := a]\<rparr>"

text \<open>\<open>occupied_next[u->id] = ai; ai->v_next = u;\<close>\<close>

definition reserve :: "nat \<Rightarrow> nat \<Rightarrow> 'r Planner \<Rightarrow> 'r Planner" where
  "reserve ai u P = set_v_next ai (Some u) (set_occupied_next u (Some ai) P)"

subsection \<open>Low-level and high-level nodes\<close>

text \<open>
  Modelled from the spec: \<open>struct Constraint\<close> of LaCAM and its constructors are not in
  \<open>planner.cpp\<close>. Section 3 and 4.3 of the specification: a frame carries flat arrays
  \<open>who\<close> and \<open>where\<close> and its \<open>depth\<close>; a child appends one pair to its parent's arrays.
\<close>

record Constraint =
  M_who :: "nat list"
  M_where :: "nat list"
  M_depth :: nat

definition Constraint_root :: Constraint where
  "Constraint_root = \<lparr>M_who = [], M_where = [], M_depth = 0\<rparr>"

definition Constraint_child :: "Constraint \<Rightarrow> nat \<Rightarrow> nat \<Rightarrow> Constraint" where
  "Constraint_child M i v =
     \<lparr>M_who = M_who M @ [i], M_where = M_where M @ [v], M_depth = M_depth M + 1\<rparr>"

text \<open>
  \<open>LNode::LNode(LNode* _parent, uint i, Vertex* v)\<close> of LaCAM2. The root frame
  \<open>new LNode()\<close> takes the default arguments, which are not in \<open>planner.cpp\<close>; it has no
  parent, hence depth 0, and its \<open>who\<close> and \<open>where\<close> are never read.
\<close>

datatype LNode = LNode (L_who: nat) (L_where: "nat option") (L_parent: "LNode option") (L_depth: nat)

definition LNode_root :: LNode where
  "LNode_root = LNode 0 None None 0"

definition LNode_child :: "LNode \<Rightarrow> nat \<Rightarrow> nat \<Rightarrow> LNode" where
  "LNode_child L i v = LNode i (Some v) (Some L) (L_depth L + 1)"

text \<open>
  \<open>struct HNode\<close> (\<open>struct Node\<close> in LaCAM). \<open>neighbor\<close> holds pointers to nodes (in LaCAM an
  \<open>unordered_map\<close> from the node id to the node): the model keeps the list of the node
  indices without repetition. \<open>search_tree\<close> is a FIFO queue, front first.
\<close>

record 'l HNode =
  H_C :: Config
  H_parent :: "nat option"
  H_neighbor :: "nat list"
  H_g :: nat
  H_h :: nat
  H_f :: nat
  H_priorities :: "real list"
  H_order :: "nat list"
  H_search_tree :: "'l list"

text \<open>The value of \<open>(int)x\<close> for a float \<open>x\<close>: truncation towards zero.\<close>

definition int_cast :: "real \<Rightarrow> int" where
  "int_cast x = (if 0 \<le> x then \<lfloor>x\<rfloor> else \<lceil>x\<rceil>)"

text \<open>
  \<open>HNode::HNode\<close>: the new node, given the store of the nodes allocated so far.
  \<open>root_frame\<close> is the frame pushed by \<open>search_tree.push(new LNode())\<close>.
\<close>

definition HNode_priorities :: "'r Env \<Rightarrow> 'l HNode list \<Rightarrow> Config \<Rightarrow> nat option \<Rightarrow> real list" where
  "HNode_priorities env nodes C parent =
     (let N = length C in
      case parent of
        None \<Rightarrow> map (\<lambda>i. real (D_get env i (C ! i)) / real N) [0..<N]
      | Some p \<Rightarrow>
          map (\<lambda>i. if D_get env i (C ! i) \<noteq> 0
                   then H_priorities (nodes ! p) ! i + 1
                   else H_priorities (nodes ! p) ! i
                          - real_of_int (int_cast (H_priorities (nodes ! p) ! i)))
              [0..<N])"

definition HNode_order :: "'r Env \<Rightarrow> real list \<Rightarrow> nat \<Rightarrow> nat list" where
  "HNode_order env priorities N =
     std_sort env (\<lambda>i j. priorities ! i > priorities ! j) [0..<N]"

definition new_HNode ::
  "'r Env \<Rightarrow> 'l \<Rightarrow> 'l HNode list \<Rightarrow> Config \<Rightarrow> nat option \<Rightarrow> nat \<Rightarrow> nat \<Rightarrow> 'l HNode" where
  "new_HNode env root_frame nodes C parent g h =
     (let priorities = HNode_priorities env nodes C parent in
      \<lparr>H_C = C, H_parent = parent, H_neighbor = [], H_g = g, H_h = h, H_f = g + h,
       H_priorities = priorities,
       H_order = HNode_order env priorities (length C),
       H_search_tree = [root_frame]\<rparr>)"

text \<open>
  The store after \<open>new HNode(C, D, parent, g, h)\<close>: the constructor inserts the new node,
  whose pointer is \<open>length nodes\<close>, into \<open>parent->neighbor\<close>.

  Modelled from the spec: \<open>Node::Node\<close> of LaCAM is not in \<open>planner.cpp\<close>; section 4.2 of
  the specification describes one construction for both planners, so LaCAM allocates its
  nodes with this function too.
\<close>

definition alloc_HNode ::
  "'r Env \<Rightarrow> 'l \<Rightarrow> 'l HNode list \<Rightarrow> Config \<Rightarrow> nat option \<Rightarrow> nat \<Rightarrow> nat \<Rightarrow> 'l HNode list" where
  "alloc_HNode env root_frame nodes C parent g h =
     (let this = length nodes;
          nodes' = (case parent of
                      None \<Rightarrow> nodes
                    | Some p \<Rightarrow>
                        nodes[p := (nodes ! p)\<lparr>H_neighbor := List.insert this (H_neighbor (nodes ! p))\<rparr>])
      in nodes' @ [new_HNode env root_frame nodes C parent g h])"

subsection \<open>Preparing the scratch tables (\<open>get_new_config\<close>, both planners)\<close>

text \<open>The body of the loop \<open>for (auto a : A)\<close> that sets up the cache, for agent \<open>a\<close>.\<close>

definition setup_cache_agent :: "Config \<Rightarrow> nat \<Rightarrow> 'r Planner \<Rightarrow> 'r Planner" where
  "setup_cache_agent C a P =
     (let P1 = (case v_now (Agents P ! a) of
                  None \<Rightarrow> P
                | Some v \<Rightarrow> if occupied_now P ! v = Some a then set_occupied_now v None P else P);
          P2 = (case v_next (Agents P1 ! a) of
                  None \<Rightarrow> P1
                | Some v \<Rightarrow> set_v_next a None (set_occupied_next v None P1));
          P3 = set_v_now a (Some (C ! a)) P2
      in set_occupied_now (C ! a) (Some a) P3)"

definition setup_cache :: "Config \<Rightarrow> 'r Planner \<Rightarrow> 'r Planner" where
  "setup_cache C P = fold (setup_cache_agent C) [0..<length (Agents P)] P"

text \<open>
  The first part of \<open>funcPIBT\<close> (the same in both planners): draw the tie-breakers of the
  neighbours when there is a generator, write the candidates into \<open>C_next[i]\<close> and sort the
  first \<open>K + 1\<close> entries.
\<close>

definition draw_tie_breaker :: "'r Env \<Rightarrow> nat \<Rightarrow> 'r Planner \<Rightarrow> 'r Planner" where
  "draw_tie_breaker env u P =
     (if MT P \<noteq> None then
        (let (x, m) = get_random_float env (MT P)
         in P\<lparr>tie_breakers := (tie_breakers P)[u := x], MT := m\<rparr>)
      else P)"

definition set_candidates :: "'r Env \<Rightarrow> Instance \<Rightarrow> nat \<Rightarrow> nat \<Rightarrow> 'r Planner \<Rightarrow> 'r Planner" where
  "set_candidates env ins i v P =
     (let us = neighbor_of ins v;
          K = length us;
          P1 = fold (draw_tie_breaker env) us P;
          row = std_sort env
                  (\<lambda>v u. real (D_get env i v) + tie_breakers P1 ! v
                          < real (D_get env i u) + tie_breakers P1 ! u)
                  (us @ [v])
      in P1\<lparr>C_next := (C_next P1)[i := row @ drop (K + 1) (C_next P1 ! i)]\<rparr>)"

subsection \<open>The single-step planner of LaCAM\<close>

text \<open>
  \<open>Planner::funcPIBT(Agent* ai, Agent* aj)\<close> of LaCAM. The recursion of the source is
  bounded by the number of agents without a next vertex; the model counts the depth down
  from a bound \<open>n\<close> and answers \<open>None\<close> when the bound is used up (or when \<open>ai->v_now\<close> is
  null). With \<open>K = ai->v_now->neighbor.size()\<close> above 4, the statement
  \<open>C_next[i][K] = ai->v_now\<close> writes past the end of the row \<open>std::array<Vertex*, 5>\<close>:
  the behaviour is undefined and the model answers \<open>None\<close>. \<open>PIBT_loop1\<close> is the loop
  \<open>for (size_t k = 0; k < K + 1; ++k)\<close> from index \<open>k\<close> on, with the two statements after it.
\<close>

function funcPIBT1 ::
    "nat \<Rightarrow> 'r Env \<Rightarrow> Instance \<Rightarrow> nat \<Rightarrow> nat option \<Rightarrow> 'r Planner \<Rightarrow> (bool \<times> 'r Planner) option"
  and PIBT_loop1 ::
    "nat \<Rightarrow> 'r Env \<Rightarrow> Instance \<Rightarrow> nat \<Rightarrow> nat \<Rightarrow> nat \<Rightarrow> nat option \<Rightarrow> nat \<Rightarrow> 'r Planner
       \<Rightarrow> (bool \<times> 'r Planner) option"
where
  "funcPIBT1 0 env ins ai aj P = None"
| "funcPIBT1 (Suc n) env ins ai aj P =
     (case v_now (Agents P ! ai) of
        None \<Rightarrow> None
      | Some v \<Rightarrow>
          if 4 < length (neighbor_of ins v) then None
          else PIBT_loop1 n env ins (length (neighbor_of ins v)) v ai aj 0
                 (set_candidates env ins ai v P))"
| "PIBT_loop1 n env ins K v ai aj k P =
     (if k < K + 1 then
        (let u = C_next P ! ai ! k in
         if occupied_next P ! u \<noteq> None then PIBT_loop1 n env ins K v ai aj (k + 1) P
         else if (case aj of None \<Rightarrow> False | Some j \<Rightarrow> Some u = v_now (Agents P ! j))
           then PIBT_loop1 n env ins K v ai aj (k + 1) P
         else
           (let ak = occupied_now P ! u in
            if (case ak of None \<Rightarrow> False | Some a \<Rightarrow> v_next (Agents P ! a) = Some v)
              then PIBT_loop1 n env ins K v ai aj (k + 1) P
            else
              (let P1 = reserve ai u P in
               case ak of
                 None \<Rightarrow> Some (True, P1)
               | Some a \<Rightarrow>
                   if u = v then Some (True, P1)
                   else if v_next (Agents P1 ! a) = None then
                     (case funcPIBT1 n env ins a (Some ai) P1 of
                        None \<Rightarrow> None
                      | Some (True, P2) \<Rightarrow> Some (True, P2)
                      | Some (False, P2) \<Rightarrow> PIBT_loop1 n env ins K v ai aj (k + 1) P2)
                   else Some (True, P1))))
      else Some (False, reserve ai v P))"
  by pat_completeness auto
termination
  by (relation "inv_image (less_than <*lex*> less_than)
        (\<lambda>x. case x of
               Inl (n, env, ins, ai, aj, P) \<Rightarrow> (n, 0)
             | Inr (n, env, ins, K, v, ai, aj, k, P) \<Rightarrow> (n, K + 2 - k))") auto

text \<open>The loop \<open>for (uint k = 0; k < M->depth; ++k)\<close> of \<open>get_new_config\<close>, over the indices \<open>ks\<close>.\<close>

fun add_constraints1 :: "Config \<Rightarrow> Constraint \<Rightarrow> nat list \<Rightarrow> 'r Planner \<Rightarrow> bool \<times> 'r Planner" where
  "add_constraints1 C M [] P = (True, P)"
| "add_constraints1 C M (k # ks) P =
     (let i = M_who M ! k; l = M_where M ! k in
      if occupied_next P ! l \<noteq> None then (False, P)
      else
        (let l_pre = C ! i in
         if occupied_next P ! l_pre \<noteq> None \<and> occupied_now P ! l \<noteq> None
            \<and> occupied_next P ! l_pre = occupied_now P ! l
         then (False, P)
         else add_constraints1 C M ks (reserve i l P)))"

text \<open>The loop \<open>for (auto k : S->order)\<close> of \<open>get_new_config\<close>.\<close>

fun perform_PIBT1 ::
  "'r Env \<Rightarrow> Instance \<Rightarrow> nat list \<Rightarrow> 'r Planner \<Rightarrow> (bool \<times> 'r Planner) option" where
  "perform_PIBT1 env ins [] P = Some (True, P)"
| "perform_PIBT1 env ins (k # ks) P =
     (if v_next (Agents P ! k) = None then
        (case funcPIBT1 (length (Agents P)) env ins k None P of
           None \<Rightarrow> None
         | Some (False, P') \<Rightarrow> Some (False, P')
         | Some (True, P') \<Rightarrow> perform_PIBT1 env ins ks P')
      else perform_PIBT1 env ins ks P)"

text \<open>\<open>Planner::get_new_config(Node* S, Constraint* M)\<close> of LaCAM.\<close>

definition get_new_config1 ::
  "'r Env \<Rightarrow> Instance \<Rightarrow> Constraint HNode \<Rightarrow> Constraint \<Rightarrow> 'r Planner \<Rightarrow> (bool \<times> 'r Planner) option" where
  "get_new_config1 env ins S M P =
     (case add_constraints1 (H_C S) M [0..<M_depth M] (setup_cache (H_C S) P) of
        (False, P') \<Rightarrow> Some (False, P')
      | (True, P') \<Rightarrow> perform_PIBT1 env ins (H_order S) P')"

subsection \<open>The swap rule of LaCAM2\<close>

text \<open>
  The inner loop \<open>for (auto u : v_puller->neighbor)\<close> of \<open>is_swap_required\<close> and
  \<open>is_swap_possible\<close>: it counts \<open>n\<close> down and remembers the last other vertex in \<open>tmp\<close>.
\<close>

definition corridor_scan ::
  "Instance \<Rightarrow> 'r Planner \<Rightarrow> nat \<Rightarrow> nat list \<Rightarrow> nat \<times> nat option \<Rightarrow> nat \<times> nat option" where
  "corridor_scan ins P v_pusher us =
     fold (\<lambda>u (n, tmp).
             if u = v_pusher
                \<or> (length (neighbor_of ins u) = 1
                    \<and> (case occupied_now P ! u of None \<Rightarrow> False | Some a \<Rightarrow> goals ins ! a = u))
             then (n - 1, tmp) else (n, Some u)) us"

text \<open>
  \<open>Planner::is_swap_required\<close>: the \<open>while\<close> loop from the current \<open>v_pusher\<close>, \<open>v_puller\<close>
  and \<open>tmp\<close>, with the final \<open>return\<close>. The result \<open>None\<close> stands for the dereference of a
  null \<open>v_puller\<close>.
\<close>

function is_swap_required ::
  "'r Env \<Rightarrow> Instance \<Rightarrow> 'r Planner \<Rightarrow> nat \<Rightarrow> nat \<Rightarrow> nat \<Rightarrow> nat \<Rightarrow> nat option \<Rightarrow> bool option" where
  "is_swap_required env ins P pusher puller v_pusher v_puller tmp =
     (if D_get env pusher v_puller < D_get env pusher v_pusher then
        (let (n, tmp') = corridor_scan ins P v_pusher (neighbor_of ins v_puller)
                           (length (neighbor_of ins v_puller), tmp)
         in if n \<ge> 2 then Some False
            else if n \<le> 0 then
              Some (D_get env puller v_pusher < D_get env puller v_puller
                    \<and> (D_get env pusher v_pusher = 0
                        \<or> D_get env pusher v_puller < D_get env pusher v_pusher))
            else (case tmp' of
                    None \<Rightarrow> None
                  | Some t \<Rightarrow> is_swap_required env ins P pusher puller v_puller t tmp'))
      else
        Some (D_get env puller v_pusher < D_get env puller v_puller
              \<and> (D_get env pusher v_pusher = 0
                  \<or> D_get env pusher v_puller < D_get env pusher v_pusher)))"
  by pat_completeness auto
termination
  by (relation "measure (\<lambda>(env, ins, P, pusher, puller, v_pusher, v_puller, tmp).
                           D_get env pusher v_pusher)") auto

text \<open>
  \<open>Planner::is_swap_possible\<close>: the \<open>while\<close> loop, which the source does not bound; \<open>None\<close>
  is a walk that never ends (or the dereference of a null \<open>v_puller\<close>).
\<close>

partial_function (option) is_swap_possible ::
  "Instance \<Rightarrow> 'r Planner \<Rightarrow> nat \<Rightarrow> nat \<Rightarrow> nat \<Rightarrow> nat option \<Rightarrow> bool option" where
  "is_swap_possible ins P v_pusher_origin v_pusher v_puller tmp =
     (if v_puller \<noteq> v_pusher_origin then
        (case corridor_scan ins P v_pusher (neighbor_of ins v_puller)
                (length (neighbor_of ins v_puller), tmp) of
           (n, tmp') \<Rightarrow>
             if n \<ge> 2 then Some True
             else if n \<le> 0 then Some False
             else (case tmp' of
                     None \<Rightarrow> None
                   | Some t \<Rightarrow> is_swap_possible ins P v_pusher_origin v_puller t tmp'))
      else Some False)"

declare is_swap_possible.simps [code]

text \<open>\<open>a && b\<close> on results that may not arrive: \<open>b\<close> is evaluated only when \<open>a\<close> is true.\<close>

definition and_then :: "bool option \<Rightarrow> bool option \<Rightarrow> bool option" where
  "and_then a b = (case a of None \<Rightarrow> None | Some False \<Rightarrow> Some False | Some True \<Rightarrow> b)"

text \<open>
  The loop \<open>for (auto u : ai->v_now->neighbor)\<close> of \<open>swap_possible_and_required\<close>; \<open>c0\<close> is
  \<open>C_next[i][0]\<close>.
\<close>

fun swap_clear ::
  "'r Env \<Rightarrow> Instance \<Rightarrow> 'r Planner \<Rightarrow> nat \<Rightarrow> nat \<Rightarrow> nat \<Rightarrow> nat list \<Rightarrow> nat option option" where
  "swap_clear env ins P ai v c0 [] = Some None"
| "swap_clear env ins P ai v c0 (u # us) =
     (case occupied_now P ! u of
        None \<Rightarrow> swap_clear env ins P ai v c0 us
      | Some ak \<Rightarrow>
          if Some c0 = v_now (Agents P ! ak) then swap_clear env ins P ai v c0 us
          else
            (case and_then (is_swap_required env ins P ak ai v c0 None)
                           (is_swap_possible ins P c0 c0 v None) of
               None \<Rightarrow> None
             | Some True \<Rightarrow> Some (Some ak)
             | Some False \<Rightarrow> swap_clear env ins P ai v c0 us))"

text \<open>
  \<open>Planner::swap_possible_and_required(Agent* ai)\<close>, with \<open>v = ai->v_now\<close>: the agent to
  swap with, if any; the outer \<open>None\<close> when the function does not return.
\<close>

definition swap_possible_and_required ::
  "'r Env \<Rightarrow> Instance \<Rightarrow> 'r Planner \<Rightarrow> nat \<Rightarrow> nat \<Rightarrow> nat option option" where
  "swap_possible_and_required env ins P ai v =
     (let c0 = C_next P ! ai ! 0 in
      if c0 = v then Some None
      else
        (case (case occupied_now P ! c0 of
                 None \<Rightarrow> Some False
               | Some aj \<Rightarrow>
                   if v_next (Agents P ! aj) = None then
                     (case v_now (Agents P ! aj) of
                        None \<Rightarrow> None
                      | Some vj \<Rightarrow>
                          and_then (is_swap_required env ins P ai aj v vj None)
                                   (is_swap_possible ins P vj vj v None))
                   else Some False) of
           None \<Rightarrow> None
         | Some True \<Rightarrow> Some (occupied_now P ! c0)
         | Some False \<Rightarrow> swap_clear env ins P ai v c0 (neighbor_of ins v)))"

subsection \<open>The single-step planner of LaCAM2\<close>

text \<open>\<open>std::reverse(C_next[i].begin(), C_next[i].begin() + K + 1)\<close>\<close>

definition reverse_candidates :: "nat \<Rightarrow> nat \<Rightarrow> 'r Planner \<Rightarrow> 'r Planner" where
  "reverse_candidates i K P =
     P\<lparr>C_next := (C_next P)[i := rev (take (K + 1) (C_next P ! i)) @ drop (K + 1) (C_next P ! i)]\<rparr>"

text \<open>The block \<open>if (FLG_SWAP) { if (k == 0 && ...) { ... } }\<close> before \<open>return true\<close>.\<close>

definition pull_swap_agent ::
  "'r Env \<Rightarrow> nat \<Rightarrow> nat option \<Rightarrow> nat \<Rightarrow> 'r Planner \<Rightarrow> 'r Planner" where
  "pull_swap_agent env k swap_agent v P =
     (if FLG_SWAP env then
        (case swap_agent of
           None \<Rightarrow> P
         | Some sa \<Rightarrow>
             if k = 0 \<and> v_next (Agents P ! sa) = None \<and> occupied_next P ! v = None
             then set_occupied_next v (Some sa) (set_v_next sa (Some v) P)
             else P)
      else P)"

text \<open>
  \<open>Planner::funcPIBT(Agent* ai)\<close> of LaCAM2, bounded as \<open>funcPIBT1\<close> is and without a result
  when \<open>K\<close> is above 4, where \<open>C_next[i][K]\<close> is past the end of the row; \<open>PIBT_loop2\<close> is the
  loop \<open>for (auto k = 0; k < K + 1; ++k)\<close> from index \<open>k\<close> on, with the two statements after it.
\<close>

function funcPIBT2 ::
    "nat \<Rightarrow> 'r Env \<Rightarrow> Instance \<Rightarrow> nat \<Rightarrow> 'r Planner \<Rightarrow> (bool \<times> 'r Planner) option"
  and PIBT_loop2 ::
    "nat \<Rightarrow> 'r Env \<Rightarrow> Instance \<Rightarrow> nat \<Rightarrow> nat \<Rightarrow> nat \<Rightarrow> nat option \<Rightarrow> nat \<Rightarrow> 'r Planner
       \<Rightarrow> (bool \<times> 'r Planner) option"
where
  "funcPIBT2 0 env ins ai P = None"
| "funcPIBT2 (Suc n) env ins ai P =
     (case v_now (Agents P ! ai) of
        None \<Rightarrow> None
      | Some v \<Rightarrow>
          (let K = length (neighbor_of ins v);
               P0 = set_candidates env ins ai v P
           in if 4 < K then None
              else if FLG_SWAP env then
                (case swap_possible_and_required env ins P0 ai v of
                   None \<Rightarrow> None
                 | Some swap_agent \<Rightarrow>
                     PIBT_loop2 n env ins K v ai swap_agent 0
                       (if swap_agent \<noteq> None then reverse_candidates ai K P0 else P0))
              else PIBT_loop2 n env ins K v ai None 0 P0))"
| "PIBT_loop2 n env ins K v ai swap_agent k P =
     (if k < K + 1 then
        (let u = C_next P ! ai ! k in
         if occupied_next P ! u \<noteq> None then PIBT_loop2 n env ins K v ai swap_agent (k + 1) P
         else
           (let ak = occupied_now P ! u in
            if (case ak of None \<Rightarrow> False | Some a \<Rightarrow> v_next (Agents P ! a) = Some v)
              then PIBT_loop2 n env ins K v ai swap_agent (k + 1) P
            else
              (let P1 = reserve ai u P in
               case ak of
                 None \<Rightarrow> Some (True, pull_swap_agent env k swap_agent v P1)
               | Some a \<Rightarrow>
                   if a \<noteq> ai \<and> v_next (Agents P1 ! a) = None then
                     (case funcPIBT2 n env ins a P1 of
                        None \<Rightarrow> None
                      | Some (True, P2) \<Rightarrow> Some (True, pull_swap_agent env k swap_agent v P2)
                      | Some (False, P2) \<Rightarrow> PIBT_loop2 n env ins K v ai swap_agent (k + 1) P2)
                   else Some (True, pull_swap_agent env k swap_agent v P1))))
      else Some (False, reserve ai v P))"
  by pat_completeness auto
termination
  by (relation "inv_image (less_than <*lex*> less_than)
        (\<lambda>x. case x of
               Inl (n, env, ins, ai, P) \<Rightarrow> (n, 0)
             | Inr (n, env, ins, K, v, ai, swap_agent, k, P) \<Rightarrow> (n, K + 2 - k))") auto

text \<open>
  The loop \<open>for (uint k = 0; k < L->depth; ++k)\<close> of \<open>get_new_config\<close>, which walks from
  the frame \<open>tmp\<close> towards the root; \<open>d\<close> is \<open>L->depth - k\<close>. \<open>None\<close> is the dereference of a
  null \<open>tmp\<close> or \<open>tmp->where\<close>.
\<close>

fun add_constraints2 ::
  "Config \<Rightarrow> nat \<Rightarrow> LNode option \<Rightarrow> 'r Planner \<Rightarrow> (bool \<times> 'r Planner) option" where
  "add_constraints2 C 0 tmp P = Some (True, P)"
| "add_constraints2 C (Suc d) tmp P =
     (case tmp of
        None \<Rightarrow> None
      | Some L \<Rightarrow>
          (case L_where L of
             None \<Rightarrow> None
           | Some l \<Rightarrow>
               (let i = L_who L in
                if occupied_next P ! l \<noteq> None then Some (False, P)
                else
                  (let l_pre = C ! i in
                   if occupied_next P ! l_pre \<noteq> None \<and> occupied_now P ! l \<noteq> None
                      \<and> occupied_next P ! l_pre = occupied_now P ! l
                   then Some (False, P)
                   else add_constraints2 C d (L_parent L) (reserve i l P)))))"

text \<open>The loop \<open>for (auto k : H->order)\<close> of \<open>get_new_config\<close>.\<close>

fun perform_PIBT2 ::
  "'r Env \<Rightarrow> Instance \<Rightarrow> nat list \<Rightarrow> 'r Planner \<Rightarrow> (bool \<times> 'r Planner) option" where
  "perform_PIBT2 env ins [] P = Some (True, P)"
| "perform_PIBT2 env ins (k # ks) P =
     (if v_next (Agents P ! k) = None then
        (case funcPIBT2 (length (Agents P)) env ins k P of
           None \<Rightarrow> None
         | Some (False, P') \<Rightarrow> Some (False, P')
         | Some (True, P') \<Rightarrow> perform_PIBT2 env ins ks P')
      else perform_PIBT2 env ins ks P)"

text \<open>\<open>Planner::get_new_config(HNode* H, LNode* L)\<close> of LaCAM2.\<close>

definition get_new_config2 ::
  "'r Env \<Rightarrow> Instance \<Rightarrow> LNode HNode \<Rightarrow> LNode \<Rightarrow> 'r Planner \<Rightarrow> (bool \<times> 'r Planner) option" where
  "get_new_config2 env ins H L P =
     (case add_constraints2 (H_C H) (L_depth L) (Some L) (setup_cache (H_C H) P) of
        None \<Rightarrow> None
      | Some (False, P') \<Rightarrow> Some (False, P')
      | Some (True, P') \<Rightarrow> perform_PIBT2 env ins (H_order H) P')"

subsection \<open>The search state\<close>

text \<open>
  What \<open>solve\<close> works on: the planner's scratch tables, the store of all nodes allocated
  so far, the stack \<open>OPEN\<close> (top first), the explored map from configurations to nodes
  (\<open>CLOSED\<close> in LaCAM, \<open>EXPLORED\<close> in LaCAM2), the goal node (\<open>S_goal\<close> in LaCAM, \<open>H_goal\<close> in
  LaCAM2), \<open>loop_cnt\<close>, and \<open>hist_cost\<close> (LaCAM only; \<open>hist_time\<close>, which records elapsed
  wall-clock time, is left out). The initial node (\<open>S_init\<close>, \<open>H_init\<close>) is node 0.
\<close>

record ('r, 'l) Search =
  planner :: "'r Planner"
  nodes :: "'l HNode list"
  OPEN :: "nat list"
  EXPLORED :: "(Config \<times> nat) list"
  H_goal :: "nat option"
  loop_cnt :: nat
  hist_cost :: "nat list"

definition sum_g :: "'l HNode list \<Rightarrow> nat" where
  "sum_g ns = sum_list (map H_g ns)"

subsection \<open>Cost rewriting in LaCAM\<close>

text \<open>\<open>Planner::update_hist\<close>, without the time.\<close>

definition update_hist :: "('r, 'l) Search \<Rightarrow> ('r, 'l) Search" where
  "update_hist st =
     (case H_goal st of
        None \<Rightarrow> st
      | Some sg \<Rightarrow> st\<lparr>hist_cost := hist_cost st @ [H_g (nodes st ! sg)]\<rparr>)"

text \<open>
  The body of the loop \<open>for (auto iter : U->neighbor)\<close> of \<open>rewrite\<close> for the neighbour \<open>W\<close>;
  the state is the search state with the queue \<open>Q\<close>. \<open>W\<close> points to an allocated node.
\<close>

definition relax1 ::
  "Instance \<Rightarrow> Objective \<Rightarrow> nat \<Rightarrow> nat \<Rightarrow> nat \<Rightarrow> nat
     \<Rightarrow> ('r, 'l) Search \<times> nat list \<Rightarrow> ('r, 'l) Search \<times> nat list" where
  "relax1 ins objective S T U W = (\<lambda>(st, Q).
     if U = S \<and> W \<noteq> T then (st, Q)
     else
       (let c = H_g (nodes st ! U)
                  + get_edge_cost1 ins objective (H_C (nodes st ! U)) (H_C (nodes st ! W))
        in if W < length (nodes st) \<and> c < H_g (nodes st ! W) then
             (let st1 = st\<lparr>nodes := (nodes st)[W := (nodes st ! W)
                             \<lparr>H_g := c, H_f := c + H_h (nodes st ! W), H_parent := Some U\<rparr>]\<rparr>
              in (if Some W = H_goal st1 then update_hist st1 else st1, Q @ [W]))
           else (st, Q)))"

lemma sum_g_update:
  "W < length ns \<Longrightarrow> sum_g (ns[W := n]) + H_g (ns ! W) = sum_g ns + H_g n"
  unfolding sum_g_def
  by (induction ns arbitrary: W) (auto split: nat.splits)

lemma relax1_measure:
  assumes "relax1 ins objective S T U W (st, Q) = (st', Q')"
  shows "(sum_g (nodes st') < sum_g (nodes st))
         \<or> (sum_g (nodes st') = sum_g (nodes st) \<and> Q' = Q)"
proof -
  have upd: "sum_g (ns[W := (ns ! W)\<lparr>H_g := c, H_f := ff, H_parent := pp\<rparr>]) < sum_g ns"
    if "W < length ns" "c < H_g (ns ! W)" for ns :: "'b HNode list" and c ff pp
    using sum_g_update[OF that(1), of "(ns ! W)\<lparr>H_g := c, H_f := ff, H_parent := pp\<rparr>"] that(2)
    by simp
  show ?thesis
    using assms upd[of "nodes st"]
    by (auto simp: relax1_def Let_def update_hist_def split: if_splits option.splits)
qed

lemma fold_relax1_measure:
  assumes "fold (relax1 ins objective S T U) Ws (st, Q) = (st', Q')"
  shows "(sum_g (nodes st') < sum_g (nodes st))
         \<or> (sum_g (nodes st') = sum_g (nodes st) \<and> Q' = Q)"
  using assms
proof (induction Ws arbitrary: st Q)
  case Nil
  then show ?case by simp
next
  case (Cons W Ws)
  obtain st1 Q1 where s1: "relax1 ins objective S T U W (st, Q) = (st1, Q1)"
    by (cases "relax1 ins objective S T U W (st, Q)")
  from Cons.prems s1 have "fold (relax1 ins objective S T U) Ws (st1, Q1) = (st', Q')"
    by simp
  from Cons.IH[OF this] relax1_measure[OF s1] show ?case by auto
qed

text \<open>The loop \<open>while (!Q.empty())\<close> of \<open>rewrite\<close>.\<close>

function rewrite_loop1 ::
  "'r Env \<Rightarrow> Instance \<Rightarrow> Objective \<Rightarrow> nat \<Rightarrow> nat \<Rightarrow> nat list \<Rightarrow> ('r, 'l) Search
     \<Rightarrow> ('r, 'l) Search" where
  "rewrite_loop1 env ins objective S T [] st = st"
| "rewrite_loop1 env ins objective S T (U # Q) st =
     (case fold (relax1 ins objective S T U)
             (neighbor_iteration env (H_neighbor (nodes st ! U))) (st, Q) of
        (st', Q') \<Rightarrow> rewrite_loop1 env ins objective S T Q' st')"
  by pat_completeness auto
termination
proof (relation "inv_image (less_than <*lex*> less_than)
         (\<lambda>(env, ins, objective, S, T, Q, st). (sum_g (nodes st), length Q))", goal_cases)
  case 1
  show ?case by auto
next
  case (2 env ins objective S T U Q st st' Q')
  then have "fold (relax1 ins objective S T U)
               (neighbor_iteration env (H_neighbor (nodes st ! U))) (st, Q) = (st', Q')"
    by simp
  from fold_relax1_measure[OF this] show ?case by auto
qed

declare rewrite_loop1.simps [simp del]

text \<open>\<open>Planner::rewrite(Node* S, Node* T)\<close> of LaCAM.\<close>

definition add_neighbor :: "nat \<Rightarrow> nat \<Rightarrow> 'l HNode list \<Rightarrow> 'l HNode list" where
  "add_neighbor S T ns = ns[S := (ns ! S)\<lparr>H_neighbor := List.insert T (H_neighbor (ns ! S))\<rparr>]"

definition rewrite1 ::
  "'r Env \<Rightarrow> Instance \<Rightarrow> Objective \<Rightarrow> nat \<Rightarrow> nat \<Rightarrow> ('r, 'l) Search \<Rightarrow> ('r, 'l) Search" where
  "rewrite1 env ins objective S T st =
     (let st1 = st\<lparr>nodes := add_neighbor T S (add_neighbor S T (nodes st))\<rparr>;
          c = H_g (nodes st1 ! S)
                + get_edge_cost1 ins objective (H_C (nodes st1 ! S)) (H_C (nodes st1 ! T))
      in if c \<ge> H_g (nodes st1 ! T) then st1
         else rewrite_loop1 env ins objective S T [S] st1)"

subsection \<open>Cost rewriting in LaCAM2\<close>

text \<open>The body of the loop \<open>for (auto n_to : n_from->neighbor)\<close> of \<open>rewrite\<close>.\<close>

definition relax2 ::
  "Instance \<Rightarrow> Objective \<Rightarrow> nat \<Rightarrow> nat
     \<Rightarrow> ('r, 'l) Search \<times> nat list \<Rightarrow> ('r, 'l) Search \<times> nat list" where
  "relax2 ins objective n_from n_to = (\<lambda>(st, Q).
     (let g_val = H_g (nodes st ! n_from)
                    + get_edge_cost2 ins objective (H_C (nodes st ! n_from)) (H_C (nodes st ! n_to))
      in if n_to < length (nodes st) \<and> g_val < H_g (nodes st ! n_to) then
           (let st1 = st\<lparr>nodes := (nodes st)[n_to := (nodes st ! n_to)
                           \<lparr>H_g := g_val, H_f := g_val + H_h (nodes st ! n_to),
                            H_parent := Some n_from\<rparr>]\<rparr>
            in (case H_goal st1 of
                  None \<Rightarrow> st1
                | Some hg \<Rightarrow>
                    if H_f (nodes st1 ! n_to) < H_f (nodes st1 ! hg)
                    then st1\<lparr>OPEN := n_to # OPEN st1\<rparr> else st1,
                Q @ [n_to]))
         else (st, Q)))"

lemma relax2_measure:
  assumes "relax2 ins objective U W (st, Q) = (st', Q')"
  shows "(sum_g (nodes st') < sum_g (nodes st))
         \<or> (sum_g (nodes st') = sum_g (nodes st) \<and> Q' = Q)"
proof -
  have upd: "sum_g (ns[W := (ns ! W)\<lparr>H_g := c, H_f := ff, H_parent := pp\<rparr>]) < sum_g ns"
    if "W < length ns" "c < H_g (ns ! W)" for ns :: "'b HNode list" and c ff pp
    using sum_g_update[OF that(1), of "(ns ! W)\<lparr>H_g := c, H_f := ff, H_parent := pp\<rparr>"] that(2)
    by simp
  show ?thesis
    using assms upd[of "nodes st"]
    by (auto simp: relax2_def Let_def split: if_splits option.splits)
qed

lemma fold_relax2_measure:
  assumes "fold (relax2 ins objective U) Ws (st, Q) = (st', Q')"
  shows "(sum_g (nodes st') < sum_g (nodes st))
         \<or> (sum_g (nodes st') = sum_g (nodes st) \<and> Q' = Q)"
  using assms
proof (induction Ws arbitrary: st Q)
  case Nil
  then show ?case by simp
next
  case (Cons W Ws)
  obtain st1 Q1 where s1: "relax2 ins objective U W (st, Q) = (st1, Q1)"
    by (cases "relax2 ins objective U W (st, Q)")
  from Cons.prems s1 have "fold (relax2 ins objective U) Ws (st1, Q1) = (st', Q')"
    by simp
  from Cons.IH[OF this] relax2_measure[OF s1] show ?case by auto
qed

text \<open>The loop \<open>while (!Q.empty())\<close> of \<open>rewrite\<close>.\<close>

function rewrite_loop2 ::
  "'r Env \<Rightarrow> Instance \<Rightarrow> Objective \<Rightarrow> nat list \<Rightarrow> ('r, 'l) Search \<Rightarrow> ('r, 'l) Search" where
  "rewrite_loop2 env ins objective [] st = st"
| "rewrite_loop2 env ins objective (n_from # Q) st =
     (case fold (relax2 ins objective n_from)
             (neighbor_iteration env (H_neighbor (nodes st ! n_from))) (st, Q) of
        (st', Q') \<Rightarrow> rewrite_loop2 env ins objective Q' st')"
  by pat_completeness auto
termination
proof (relation "inv_image (less_than <*lex*> less_than)
         (\<lambda>(env, ins, objective, Q, st). (sum_g (nodes st), length Q))", goal_cases)
  case 1
  show ?case by auto
next
  case (2 env ins objective n_from Q st st' Q')
  then have "fold (relax2 ins objective n_from)
               (neighbor_iteration env (H_neighbor (nodes st ! n_from))) (st, Q) = (st', Q')"
    by simp
  from fold_relax2_measure[OF this] show ?case by auto
qed

declare rewrite_loop2.simps [simp del]

text \<open>
  \<open>Planner::rewrite(HNode* H_from, HNode* H_to, HNode* H_goal, std::stack<HNode*>& OPEN)\<close>
  of LaCAM2; \<open>H_goal\<close> and \<open>OPEN\<close> are those of the search state.
\<close>

definition rewrite2 ::
  "'r Env \<Rightarrow> Instance \<Rightarrow> Objective \<Rightarrow> nat \<Rightarrow> nat \<Rightarrow> ('r, 'l) Search \<Rightarrow> ('r, 'l) Search" where
  "rewrite2 env ins objective H_from H_to st =
     rewrite_loop2 env ins objective [H_from]
       (st\<lparr>nodes := add_neighbor H_from H_to (nodes st)\<rparr>)"

subsection \<open>Parts common to both search loops\<close>

text \<open>\<open>H->search_tree.pop()\<close>\<close>

definition pop_search_tree :: "nat \<Rightarrow> ('r, 'l) Search \<Rightarrow> ('r, 'l) Search" where
  "pop_search_tree H st =
     st\<lparr>nodes := (nodes st)[H := (nodes st ! H)\<lparr>H_search_tree := tl (H_search_tree (nodes st ! H))\<rparr>]\<rparr>"

text \<open>
  \<open>for (auto a : A) C_new[a->id] = a->v_next;\<close> A null \<open>v_next\<close> would be dereferenced by
  the lookup that follows: the result is \<open>None\<close> then.
\<close>

definition C_new_of :: "'r Planner \<Rightarrow> Config option" where
  "C_new_of P = those (map v_next (Agents P))"

text \<open>\<open>if (H_goal == nullptr || T->f < H_goal->f) OPEN.push(T);\<close>\<close>

definition push_gated :: "nat \<Rightarrow> ('r, 'l) Search \<Rightarrow> ('r, 'l) Search" where
  "push_gated T st =
     (if (case H_goal st of None \<Rightarrow> True | Some hg \<Rightarrow> H_f (nodes st ! T) < H_f (nodes st ! hg))
      then st\<lparr>OPEN := T # OPEN st\<rparr> else st)"

text \<open>The candidates of \<open>expand_lowlevel_tree\<close>, shuffled when there is a generator.\<close>

definition shuffled :: "'r Env \<Rightarrow> nat list \<Rightarrow> 'r Planner \<Rightarrow> nat list \<times> 'r Planner" where
  "shuffled env C P =
     (case MT P of
        None \<Rightarrow> (C, P)
      | Some r \<Rightarrow> (let (C', r') = std_shuffle env r C in (C', P\<lparr>MT := Some r'\<rparr>)))"

definition push_frames :: "nat \<Rightarrow> 'l list \<Rightarrow> 'l HNode list \<Rightarrow> 'l HNode list" where
  "push_frames H fs ns = ns[H := (ns ! H)\<lparr>H_search_tree := H_search_tree (ns ! H) @ fs\<rparr>]"

text \<open>The search state after the initial node is inserted.\<close>

definition init_Search ::
  "'r Env \<Rightarrow> Instance \<Rightarrow> 'r option \<Rightarrow> 'l \<Rightarrow> nat \<Rightarrow> ('r, 'l) Search" where
  "init_Search env ins mt root_frame h =
     \<lparr>planner = init_Planner ins mt,
      nodes = alloc_HNode env root_frame [] (starts ins) None 0 h,
      OPEN = [0],
      EXPLORED = AList.update (starts ins) 0 [],
      H_goal = None,
      loop_cnt = 0,
      hist_cost = []\<rparr>"

text \<open>
  The \<open>backtrack\<close> loop \<open>while (S != nullptr) { solution.push_back(S->C); S = S->parent; }\<close>.
\<close>

partial_function (option) backtrack ::
  "'l HNode list \<Rightarrow> nat option \<Rightarrow> Config list \<Rightarrow> Config list option" where
  "backtrack ns S solution =
     (case S of
        None \<Rightarrow> Some solution
      | Some s \<Rightarrow> backtrack ns (H_parent (ns ! s)) (solution @ [H_C (ns ! s)]))"

declare backtrack.simps [code]

text \<open>The block \<open>// backtrack\<close> of \<open>solve\<close>.\<close>

definition solution_of :: "('r, 'l) Search \<Rightarrow> Config list option" where
  "solution_of st =
     (case H_goal st of
        None \<Rightarrow> Some []
      | Some hg \<Rightarrow> map_option rev (backtrack (nodes st) (Some hg) []))"

text \<open>
  The lines appended to \<open>additional_info\<close>, as pairs of the key and the value that
  \<open>std::to_string\<close> prints (a \<open>bool\<close> prints as 0 or 1).
\<close>

datatype InfoValue = IBool bool | IObjective Objective | INat nat | INats "nat list"

subsection \<open>The search of LaCAM\<close>

text \<open>\<open>Planner::expand_lowlevel_tree(Node* S, Constraint* M)\<close>\<close>

definition expand_lowlevel_tree1 ::
  "'r Env \<Rightarrow> Instance \<Rightarrow> nat \<Rightarrow> Constraint \<Rightarrow> ('r, Constraint) Search \<Rightarrow> ('r, Constraint) Search" where
  "expand_lowlevel_tree1 env ins S M st =
     (if M_depth M \<ge> ins_N ins then st
      else
        (let i = H_order (nodes st ! S) ! M_depth M;
             v = H_C (nodes st ! S) ! i;
             (C, P) = shuffled env (neighbor_of ins v @ [v]) (planner st)
         in st\<lparr>planner := P, nodes := push_frames S (map (Constraint_child M i) C) (nodes st)\<rparr>))"

text \<open>
  \<open>get_random_float(MT) >= RESTART_RATE ? iter->second : S_init\<close>: the node chosen and the
  planner with the generator advanced. The call is made with a null \<open>MT\<close> too.
\<close>

definition choose_insert1 :: "'r Env \<Rightarrow> real \<Rightarrow> nat \<Rightarrow> 'r Planner \<Rightarrow> nat \<times> 'r Planner" where
  "choose_insert1 env RESTART_RATE hit P =
     (let (x, mt) = get_random_float env (MT P)
      in (if x \<ge> RESTART_RATE then hit else 0, P\<lparr>MT := mt\<rparr>))"

text \<open>The branch \<open>if (iter != CLOSED.end())\<close> of the loop body, with \<open>hit = iter->second\<close>.\<close>

definition explored_hit1 ::
  "'r Env \<Rightarrow> Instance \<Rightarrow> Objective \<Rightarrow> real \<Rightarrow> nat \<Rightarrow> nat \<Rightarrow> ('r, 'l) Search \<Rightarrow> ('r, 'l) Search" where
  "explored_hit1 env ins objective RESTART_RATE S hit st =
     (let st3 = rewrite1 env ins objective S hit st;
          (T, P) = choose_insert1 env RESTART_RATE hit (planner st3)
      in push_gated T (st3\<lparr>planner := P\<rparr>))"

text \<open>
  One pass through the body of \<open>while (!OPEN.empty() && !is_expired(deadline))\<close>, with
  \<open>S = OPEN.top()\<close>. The flag is \<open>True\<close> when the pass ends in \<open>break\<close>.
\<close>

definition solve_iteration1 ::
  "'r Env \<Rightarrow> Instance \<Rightarrow> Objective \<Rightarrow> real \<Rightarrow> nat \<Rightarrow> ('r, Constraint) Search
     \<Rightarrow> (bool \<times> ('r, Constraint) Search) option" where
  "solve_iteration1 env ins objective RESTART_RATE S st0 =
     (let st = st0\<lparr>loop_cnt := loop_cnt st0 + 1\<rparr> in
      case H_search_tree (nodes st ! S) of
        [] \<Rightarrow> Some (False, st\<lparr>OPEN := tl (OPEN st)\<rparr>)
      | M # _ \<Rightarrow>
          if H_goal st = None \<and> H_C (nodes st ! S) = goals ins then
            Some (objective = OBJ_NONE, update_hist (st\<lparr>H_goal := Some S\<rparr>))
          else
            (let st1 = expand_lowlevel_tree1 env ins S M (pop_search_tree S st) in
             case get_new_config1 env ins (nodes st1 ! S) M (planner st1) of
               None \<Rightarrow> None
             | Some (False, P) \<Rightarrow> Some (False, st1\<lparr>planner := P\<rparr>)
             | Some (True, P) \<Rightarrow>
                 (case C_new_of P of
                    None \<Rightarrow> None
                  | Some C_new \<Rightarrow>
                      (let st2 = st1\<lparr>planner := P\<rparr> in
                       case map_of (EXPLORED st2) C_new of
                         Some hit \<Rightarrow> Some (False, explored_hit1 env ins objective RESTART_RATE S hit st2)
                       | None \<Rightarrow>
                           (let S_new = length (nodes st2);
                                st3 = st2\<lparr>nodes :=
                                        alloc_HNode env Constraint_root (nodes st2) C_new (Some S)
                                          (H_g (nodes st2 ! S)
                                             + get_edge_cost1 ins objective (H_C (nodes st2 ! S)) C_new)
                                          (get_h_value1 env ins objective C_new),
                                      EXPLORED := AList.update C_new S_new (EXPLORED st2)\<rparr>
                            in Some (False, push_gated S_new st3))))))"

text \<open>
  The \<open>while\<close> loop: \<open>deadline\<close> is the number of times \<open>is_expired\<close> still answers
  \<open>false\<close>.
\<close>

fun search_loop1 ::
  "nat \<Rightarrow> 'r Env \<Rightarrow> Instance \<Rightarrow> Objective \<Rightarrow> real \<Rightarrow> ('r, Constraint) Search
     \<Rightarrow> ('r, Constraint) Search option" where
  "search_loop1 0 env ins objective RESTART_RATE st = Some st"
| "search_loop1 (Suc deadline) env ins objective RESTART_RATE st =
     (case OPEN st of
        [] \<Rightarrow> Some st
      | S # _ \<Rightarrow>
          (case solve_iteration1 env ins objective RESTART_RATE S st of
             None \<Rightarrow> None
           | Some (True, st') \<Rightarrow> Some st'
           | Some (False, st') \<Rightarrow> search_loop1 deadline env ins objective RESTART_RATE st'))"

definition additional_info1 :: "Objective \<Rightarrow> ('r, 'l) Search \<Rightarrow> (string \<times> InfoValue) list" where
  "additional_info1 objective st =
     [(''optimal'', IBool (H_goal st \<noteq> None \<and> OPEN st = [])),
      (''objective'', IObjective objective),
      (''loop_cnt'', INat (loop_cnt st)),
      (''num_node_gen'', INat (length (EXPLORED st))),
      (''hist_cost'', INats (hist_cost (update_hist st)))]"

definition search1 ::
  "'r Env \<Rightarrow> Instance \<Rightarrow> 'r option \<Rightarrow> Objective \<Rightarrow> real \<Rightarrow> nat \<Rightarrow> ('r, Constraint) Search option" where
  "search1 env ins mt objective RESTART_RATE deadline =
     search_loop1 deadline env ins objective RESTART_RATE
       (init_Search env ins mt Constraint_root (get_h_value1 env ins objective (starts ins)))"

text \<open>
  \<open>Planner::solve\<close> of LaCAM (and the free function \<open>solve\<close>, which builds the planner and
  calls it): the solution and the lines of \<open>additional_info\<close>.
\<close>

definition solve1 ::
  "'r Env \<Rightarrow> Instance \<Rightarrow> 'r option \<Rightarrow> Objective \<Rightarrow> real \<Rightarrow> nat
     \<Rightarrow> (Config list \<times> (string \<times> InfoValue) list) option" where
  "solve1 env ins mt objective RESTART_RATE deadline =
     (case search1 env ins mt objective RESTART_RATE deadline of
        None \<Rightarrow> None
      | Some st \<Rightarrow>
          (case solution_of st of
             None \<Rightarrow> None
           | Some solution \<Rightarrow> Some (solution, additional_info1 objective st)))"

subsection \<open>The search of LaCAM2\<close>

text \<open>\<open>Planner::expand_lowlevel_tree(HNode* H, LNode* L)\<close>\<close>

definition expand_lowlevel_tree2 ::
  "'r Env \<Rightarrow> Instance \<Rightarrow> nat \<Rightarrow> LNode \<Rightarrow> ('r, LNode) Search \<Rightarrow> ('r, LNode) Search" where
  "expand_lowlevel_tree2 env ins H L st =
     (if L_depth L \<ge> ins_N ins then st
      else
        (let i = H_order (nodes st ! H) ! L_depth L;
             v = H_C (nodes st ! H) ! i;
             (C, P) = shuffled env (neighbor_of ins v @ [v]) (planner st)
         in st\<lparr>planner := P, nodes := push_frames H (map (LNode_child L i) C) (nodes st)\<rparr>))"

text \<open>
  \<open>(MT != nullptr && get_random_float(MT) >= RESTART_RATE) ? iter->second : H_init\<close>: the
  node chosen and the planner with the generator advanced.
\<close>

definition choose_insert2 :: "'r Env \<Rightarrow> real \<Rightarrow> nat \<Rightarrow> 'r Planner \<Rightarrow> nat \<times> 'r Planner" where
  "choose_insert2 env RESTART_RATE hit P =
     (case MT P of
        None \<Rightarrow> (0, P)
      | Some r \<Rightarrow>
          (let (x, mt) = get_random_float env (Some r)
           in (if x \<ge> RESTART_RATE then hit else 0, P\<lparr>MT := mt\<rparr>)))"

text \<open>The branch \<open>if (iter != EXPLORED.end())\<close> of the loop body, with \<open>hit = iter->second\<close>.\<close>

definition explored_hit2 ::
  "'r Env \<Rightarrow> Instance \<Rightarrow> Objective \<Rightarrow> real \<Rightarrow> nat \<Rightarrow> nat \<Rightarrow> ('r, 'l) Search \<Rightarrow> ('r, 'l) Search" where
  "explored_hit2 env ins objective RESTART_RATE H hit st =
     (let st3 = rewrite2 env ins objective H hit st;
          (H_insert, P) = choose_insert2 env RESTART_RATE hit (planner st3)
      in push_gated H_insert (st3\<lparr>planner := P\<rparr>))"

text \<open>
  One pass through the body of the \<open>while\<close> loop of \<open>solve\<close>, with \<open>H = OPEN.top()\<close>. The
  flag is \<open>True\<close> when the pass ends in \<open>break\<close>.
\<close>

definition solve_iteration2 ::
  "'r Env \<Rightarrow> Instance \<Rightarrow> Objective \<Rightarrow> real \<Rightarrow> nat \<Rightarrow> ('r, LNode) Search
     \<Rightarrow> (bool \<times> ('r, LNode) Search) option" where
  "solve_iteration2 env ins objective RESTART_RATE H st0 =
     (let st = st0\<lparr>loop_cnt := loop_cnt st0 + 1\<rparr> in
      case H_search_tree (nodes st ! H) of
        [] \<Rightarrow> Some (False, st\<lparr>OPEN := tl (OPEN st)\<rparr>)
      | L # _ \<Rightarrow>
          if (case H_goal st of None \<Rightarrow> False | Some hg \<Rightarrow> H_f (nodes st ! H) \<ge> H_f (nodes st ! hg))
            then Some (False, st\<lparr>OPEN := tl (OPEN st)\<rparr>)
          else if H_goal st = None \<and> H_C (nodes st ! H) = goals ins then
            Some (True, st\<lparr>H_goal := Some H\<rparr>)
          else
            (let st1 = expand_lowlevel_tree2 env ins H L (pop_search_tree H st) in
             case get_new_config2 env ins (nodes st1 ! H) L (planner st1) of
               None \<Rightarrow> None
             | Some (False, P) \<Rightarrow> Some (False, st1\<lparr>planner := P\<rparr>)
             | Some (True, P) \<Rightarrow>
                 (case C_new_of P of
                    None \<Rightarrow> None
                  | Some C_new \<Rightarrow>
                      (let st2 = st1\<lparr>planner := P\<rparr> in
                       case map_of (EXPLORED st2) C_new of
                         Some hit \<Rightarrow> Some (False, explored_hit2 env ins objective RESTART_RATE H hit st2)
                       | None \<Rightarrow>
                           (let H_new = length (nodes st2);
                                st3 = st2\<lparr>nodes :=
                                        alloc_HNode env LNode_root (nodes st2) C_new (Some H)
                                          (H_g (nodes st2 ! H)
                                             + get_edge_cost2 ins objective (H_C (nodes st2 ! H)) C_new)
                                          (get_h_value2 env ins objective C_new),
                                      EXPLORED := AList.update C_new H_new (EXPLORED st2)\<rparr>
                            in Some (False, push_gated H_new st3))))))"

fun search_loop2 ::
  "nat \<Rightarrow> 'r Env \<Rightarrow> Instance \<Rightarrow> Objective \<Rightarrow> real \<Rightarrow> ('r, LNode) Search
     \<Rightarrow> ('r, LNode) Search option" where
  "search_loop2 0 env ins objective RESTART_RATE st = Some st"
| "search_loop2 (Suc deadline) env ins objective RESTART_RATE st =
     (case OPEN st of
        [] \<Rightarrow> Some st
      | H # _ \<Rightarrow>
          (case solve_iteration2 env ins objective RESTART_RATE H st of
             None \<Rightarrow> None
           | Some (True, st') \<Rightarrow> Some st'
           | Some (False, st') \<Rightarrow> search_loop2 deadline env ins objective RESTART_RATE st'))"

definition additional_info2 :: "Objective \<Rightarrow> ('r, 'l) Search \<Rightarrow> (string \<times> InfoValue) list" where
  "additional_info2 objective st =
     [(''optimal'', IBool (H_goal st \<noteq> None \<and> OPEN st = [])),
      (''objective'', IObjective objective),
      (''loop_cnt'', INat (loop_cnt st)),
      (''num_node_gen'', INat (length (EXPLORED st)))]"

definition search2 ::
  "'r Env \<Rightarrow> Instance \<Rightarrow> 'r option \<Rightarrow> Objective \<Rightarrow> real \<Rightarrow> nat \<Rightarrow> ('r, LNode) Search option" where
  "search2 env ins mt objective RESTART_RATE deadline =
     search_loop2 deadline env ins objective RESTART_RATE
       (init_Search env ins mt LNode_root (get_h_value2 env ins objective (starts ins)))"

text \<open>\<open>Planner::solve\<close> of LaCAM2: the solution and the lines of \<open>additional_info\<close>.\<close>

definition solve2 ::
  "'r Env \<Rightarrow> Instance \<Rightarrow> 'r option \<Rightarrow> Objective \<Rightarrow> real \<Rightarrow> nat
     \<Rightarrow> (Config list \<times> (string \<times> InfoValue) list) option" where
  "solve2 env ins mt objective RESTART_RATE deadline =
     (case search2 env ins mt objective RESTART_RATE deadline of
        None \<Rightarrow> None
      | Some st \<Rightarrow>
          (case solution_of st of
             None \<Rightarrow> None
           | Some solution \<Rightarrow> Some (solution, additional_info2 objective st)))"

subsection \<open>A deterministic environment and two small instances\<close>

text \<open>
  The environment used to run the planners on concrete instances: \<open>std::sort\<close> as a stable
  insertion sort, a shuffle that changes nothing, a generator that always draws 0, and
  \<open>neighbor\<close> iterated in insertion order.
\<close>

fun insert_sorted :: "(nat \<Rightarrow> nat \<Rightarrow> bool) \<Rightarrow> nat \<Rightarrow> nat list \<Rightarrow> nat list" where
  "insert_sorted lt x [] = [x]"
| "insert_sorted lt x (y # ys) = (if lt x y then x # y # ys else y # insert_sorted lt x ys)"

definition insertion_sort :: "(nat \<Rightarrow> nat \<Rightarrow> bool) \<Rightarrow> nat list \<Rightarrow> nat list" where
  "insertion_sort lt xs = foldl (\<lambda>ys x. insert_sorted lt x ys) [] xs"

definition det_env :: "(nat \<Rightarrow> nat \<Rightarrow> nat) \<Rightarrow> bool \<Rightarrow> unit Env" where
  "det_env d flg =
     \<lparr>D_get = d,
      std_sort = insertion_sort,
      std_shuffle = (\<lambda>r xs. (xs, r)),
      get_random_float = (\<lambda>m. (0, m)),
      neighbor_iteration = (\<lambda>xs. xs),
      FLG_SWAP = flg\<rparr>"

text \<open>One agent on the path 0 - 1 - 2, from vertex 0 to vertex 2.\<close>

definition path_ins :: Instance where
  "path_ins = \<lparr>ins_G = [[1], [0, 2], [1]], ins_N = 1, starts = [0], goals = [2]\<rparr>"

definition path_D :: "nat \<Rightarrow> nat \<Rightarrow> nat" where
  "path_D i v = 2 - v"

text \<open>
  Two agents on the square 0 - 1 - 3 - 2 - 0 (a 2 x 2 grid), from the vertices 0 and 1 to
  the vertices 3 and 2.
\<close>

definition square_ins :: Instance where
  "square_ins = \<lparr>ins_G = [[1, 2], [0, 3], [0, 3], [1, 2]], ins_N = 2,
                  starts = [0, 1], goals = [3, 2]\<rparr>"

definition square_D :: "nat \<Rightarrow> nat \<Rightarrow> nat" where
  "square_D i v =
     (if i = 0 then (if v = 3 then 0 else if v = 0 then 2 else 1)
      else (if v = 2 then 0 else if v = 1 then 2 else 1))"

text \<open>
  One agent on two disconnected edges 0 - 1 and 2 - 3: it starts at vertex 0 and its goal,
  vertex 2, cannot be reached.
\<close>

definition gap_ins :: Instance where
  "gap_ins = \<lparr>ins_G = [[1], [0], [3], [2]], ins_N = 1, starts = [0], goals = [2]\<rparr>"

definition gap_D :: "nat \<Rightarrow> nat \<Rightarrow> nat" where
  "gap_D i v = (if v = 2 then 0 else if v = 3 then 1 else 4)"

text \<open>The path instance with the agent already at its goal.\<close>

definition rest_ins :: Instance where
  "rest_ins = \<lparr>ins_G = [[1], [0, 2], [1]], ins_N = 1, starts = [2], goals = [2]\<rparr>"

text \<open>
  Two agents on the T-shaped graph made of the bar 0 - 1 - 2 and a fourth vertex 3 attached
  to vertex 1: they start at the two ends of the bar and have to change places. \<open>T_D\<close> is
  the distance to the goal.
\<close>

definition T_ins :: Instance where
  "T_ins = \<lparr>ins_G = [[1], [0, 2, 3], [1], [1]], ins_N = 2, starts = [0, 2], goals = [2, 0]\<rparr>"

definition T_D :: "nat \<Rightarrow> nat \<Rightarrow> nat" where
  "T_D i v = (if i = 0 then (if v = 2 then 0 else if v = 1 then 1 else 2)
              else (if v = 0 then 0 else if v = 1 then 1 else 2))"

text \<open>
  One agent on the triangle 0 - 1 - 2; its goal, the isolated vertex 3, cannot be reached.
\<close>

definition tri_ins :: Instance where
  "tri_ins = \<lparr>ins_G = [[1, 2], [0, 2], [0, 1], []], ins_N = 1, starts = [0], goals = [3]\<rparr>"

definition tri_D :: "nat \<Rightarrow> nat \<Rightarrow> nat" where
  "tri_D i v = (if v = 0 then 3 else if v = 3 then 0 else 1)"

text \<open>
  The search states after \<open>n\<close> passes of the loop: LaCAM without a generator and LaCAM2
  with a generator on the T, both planners without a generator on the triangle.
\<close>

definition T_state1 :: "nat \<Rightarrow> (unit, Constraint) Search" where
  "T_state1 n = the (search1 (det_env T_D False) T_ins None OBJ_MAKESPAN 0 n)"

definition T_state2 :: "nat \<Rightarrow> (unit, LNode) Search" where
  "T_state2 n = the (search2 (det_env T_D False) T_ins (Some ()) OBJ_MAKESPAN 0 n)"

definition tri_state1 :: "nat \<Rightarrow> (unit, Constraint) Search" where
  "tri_state1 n = the (search1 (det_env tri_D False) tri_ins None OBJ_MAKESPAN 0 n)"

definition tri_state2 :: "nat \<Rightarrow> (unit, LNode) Search" where
  "tri_state2 n = the (search2 (det_env tri_D False) tri_ins None OBJ_MAKESPAN 0 n)"

text \<open>
  The next pass on the T after \<open>n\<close> passes, on the node \<open>S\<close> at the top of \<open>OPEN\<close>: the frame
  taken from the low-level search tree, the state after the low-level expansion, and the
  planner after \<open>get_new_config\<close>.
\<close>

definition T_frame1 :: "nat \<Rightarrow> nat \<Rightarrow> Constraint" where
  "T_frame1 n S = hd (H_search_tree (nodes (T_state1 n) ! S))"

definition T_expanded1 :: "nat \<Rightarrow> nat \<Rightarrow> (unit, Constraint) Search" where
  "T_expanded1 n S = expand_lowlevel_tree1 (det_env T_D False) T_ins S (T_frame1 n S)
                       (pop_search_tree S ((T_state1 n)\<lparr>loop_cnt := loop_cnt (T_state1 n) + 1\<rparr>))"

definition T_planner1 :: "nat \<Rightarrow> nat \<Rightarrow> unit Planner" where
  "T_planner1 n S = snd (the (get_new_config1 (det_env T_D False) T_ins (nodes (T_expanded1 n S) ! S)
                               (T_frame1 n S) (planner (T_expanded1 n S))))"

definition T_frame2 :: "nat \<Rightarrow> nat \<Rightarrow> LNode" where
  "T_frame2 n H = hd (H_search_tree (nodes (T_state2 n) ! H))"

definition T_expanded2 :: "nat \<Rightarrow> nat \<Rightarrow> (unit, LNode) Search" where
  "T_expanded2 n H = expand_lowlevel_tree2 (det_env T_D False) T_ins H (T_frame2 n H)
                       (pop_search_tree H ((T_state2 n)\<lparr>loop_cnt := loop_cnt (T_state2 n) + 1\<rparr>))"

definition T_planner2 :: "nat \<Rightarrow> nat \<Rightarrow> unit Planner" where
  "T_planner2 n H = snd (the (get_new_config2 (det_env T_D False) T_ins (nodes (T_expanded2 n H) ! H)
                               (T_frame2 n H) (planner (T_expanded2 n H))))"

section \<open>Properties\<close>

subsection \<open>The heuristic value\<close>

lemma fold_max_upt:
  "fold (\<lambda>i cost. max cost (d i)) [0..<n] (c::nat) = Max (insert c (d ` {..<n}))"
proof (induction n)
  case 0
  then show ?case by simp
next
  case (Suc n)
  have "Max (insert c (d ` {..<Suc n})) = Max (insert (d n) (insert c (d ` {..<n})))"
    by (simp add: lessThan_Suc insert_commute)
  also have "\<dots> = max (d n) (Max (insert c (d ` {..<n})))"
    by (rule Max_insert) auto
  finally show ?case using Suc by (simp add: max.commute)
qed

lemma fold_add_mod_upt:
  "fold (\<lambda>i cost. (cost + d i) mod m) [0..<n] (c mod m) = (c + (\<Sum>i<n. d i)) mod (m::nat)"
proof (induction n)
  case 0
  then show ?case by simp
next
  case (Suc n)
  have "fold (\<lambda>i cost. (cost + d i) mod m) [0..<Suc n] (c mod m)
          = ((c + (\<Sum>i<n. d i)) mod m + d n) mod m"
    using Suc by simp
  also have "\<dots> = (c + (\<Sum>i<n. d i) + d n) mod m"
    by (rule mod_add_left_eq)
  finally show ?case by (simp add: add.assoc)
qed

lemma fold_add_wrap:
  "fold (\<lambda>i cost. uint_add cost (d i)) [0..<n] 0 = (\<Sum>i<n. d i) mod 2 ^ 32"
proof -
  have "(\<lambda>i cost. uint_add cost (d i)) = (\<lambda>i cost. (cost + d i) mod 2 ^ 32)"
    by (simp add: uint_add_def fun_eq_iff)
  with fold_add_mod_upt[of d "2 ^ 32" n 0] show ?thesis by simp
qed

text \<open>
  The two formulas of the specification for \<open>get_h_value\<close>: the largest distance (0 when
  there is no agent) and the sum of the distances.
\<close>

definition spec_max_distance :: "'r Env \<Rightarrow> Instance \<Rightarrow> Config \<Rightarrow> nat" where
  "spec_max_distance env ins C = Max (insert 0 ((\<lambda>i. D_get env i (C ! i)) ` {..<ins_N ins}))"

definition spec_sum_distance :: "'r Env \<Rightarrow> Instance \<Rightarrow> Config \<Rightarrow> nat" where
  "spec_sum_distance env ins C = (\<Sum>i<ins_N ins. D_get env i (C ! i))"

text \<open>
  C4 (amended). \<open>get_h_value(C)\<close> is the maximum over the agents of \<open>d(i, C[i])\<close> under
  \<open>OBJ_MAKESPAN\<close>, in both planners. Under \<open>OBJ_SUM_OF_LOSS\<close> it is, in both planners, the
  sum of the \<open>d(i, C[i])\<close> reduced modulo \<open>2^32\<close>, the accumulator being a 32-bit \<open>uint\<close>:
  the sum itself whenever the sum is below \<open>2^32\<close>. Under \<open>OBJ_NONE\<close> LaCAM2 returns the same
  value as under \<open>OBJ_SUM_OF_LOSS\<close>, but LaCAM returns 0.
\<close>

theorem get_h_value_spec:
  "get_h_value1 env ins OBJ_MAKESPAN C = spec_max_distance env ins C
   \<and> get_h_value1 env ins OBJ_SUM_OF_LOSS C = spec_sum_distance env ins C mod 2 ^ 32
   \<and> get_h_value1 env ins OBJ_NONE C = 0
   \<and> get_h_value2 env ins OBJ_MAKESPAN C = spec_max_distance env ins C
   \<and> get_h_value2 env ins OBJ_SUM_OF_LOSS C = spec_sum_distance env ins C mod 2 ^ 32
   \<and> get_h_value2 env ins OBJ_NONE C = spec_sum_distance env ins C mod 2 ^ 32
   \<and> (spec_sum_distance env ins C < 2 ^ 32 \<longrightarrow>
        get_h_value1 env ins OBJ_SUM_OF_LOSS C = spec_sum_distance env ins C
        \<and> get_h_value2 env ins OBJ_SUM_OF_LOSS C = spec_sum_distance env ins C
        \<and> get_h_value2 env ins OBJ_NONE C = spec_sum_distance env ins C)"
  by (simp add: get_h_value1_def get_h_value2_def spec_max_distance_def spec_sum_distance_def
        fold_max_upt fold_add_wrap)

theorem get_h_value_spec_witness:
  "get_h_value1 (det_env square_D False) square_ins OBJ_SUM_OF_LOSS [0, 1] = 4
   \<and> get_h_value2 (det_env square_D False) square_ins OBJ_SUM_OF_LOSS [0, 1] = 4
   \<and> get_h_value2 (det_env square_D False) square_ins OBJ_NONE [0, 1] = 4"
proof -
  have s: "spec_sum_distance (det_env square_D False) square_ins [0, 1] = 4"
    by (simp add: spec_sum_distance_def det_env_def square_ins_def square_D_def lessThan_Suc
          numeral_2_eq_2)
  then have "spec_sum_distance (det_env square_D False) square_ins [0, 1] < 2 ^ 32" by simp
  with get_h_value_spec[of "det_env square_D False" square_ins "[0, 1]"] s
  show ?thesis by simp
qed

text \<open>
  C4 as stated fails for LaCAM: on the path instance, with the agent at vertex 0 (distance
  2 from its goal), \<open>get_h_value\<close> under \<open>OBJ_NONE\<close> is 0 and not the sum of the distances.
\<close>

theorem get_h_value_none_counterexample:
  "get_h_value1 (det_env path_D False) path_ins OBJ_NONE [0] = 0
   \<and> spec_sum_distance (det_env path_D False) path_ins [0] = 2"
  by (simp add: get_h_value1_def spec_sum_distance_def det_env_def path_ins_def path_D_def)


subsection \<open>The goal check of the search loop\<close>

text \<open>
  C3 (amended). When the node on top of \<open>OPEN\<close> still has frames, no goal node is recorded
  yet and its configuration equals the goals, the pass records it as the goal node. LaCAM
  then leaves the loop only when the objective is \<open>OBJ_NONE\<close> and goes on with the next pass
  under \<open>OBJ_MAKESPAN\<close> and \<open>OBJ_SUM_OF_LOSS\<close>; LaCAM2 leaves the loop under every
  objective.
\<close>

theorem goal_check_break:
  assumes "H_goal st1 = None" "OPEN st1 = S # rest1"
    "H_search_tree (nodes st1 ! S) \<noteq> []" "H_C (nodes st1 ! S) = goals ins"
    "H_goal st2 = None" "OPEN st2 = H # rest2"
    "H_search_tree (nodes st2 ! H) \<noteq> []" "H_C (nodes st2 ! H) = goals ins"
  shows "search_loop1 (Suc d) env ins objective r st1 =
           (if objective = OBJ_NONE
            then Some (update_hist (st1\<lparr>loop_cnt := loop_cnt st1 + 1, H_goal := Some S\<rparr>))
            else search_loop1 d env ins objective r
                   (update_hist (st1\<lparr>loop_cnt := loop_cnt st1 + 1, H_goal := Some S\<rparr>)))
         \<and> search_loop2 (Suc d) env ins objective r st2 =
             Some (st2\<lparr>loop_cnt := loop_cnt st2 + 1, H_goal := Some H\<rparr>)"
  using assms
  by (auto simp: solve_iteration1_def solve_iteration2_def Let_def split: list.splits)

theorem goal_check_break_witness:
  "search_loop1 (Suc 5) (det_env path_D False) rest_ins OBJ_MAKESPAN 0
       (init_Search (det_env path_D False) rest_ins None Constraint_root 0) =
     search_loop1 5 (det_env path_D False) rest_ins OBJ_MAKESPAN 0
       (update_hist ((init_Search (det_env path_D False) rest_ins None Constraint_root 0)
          \<lparr>loop_cnt := 1, H_goal := Some 0\<rparr>))
   \<and> search_loop2 (Suc 5) (det_env path_D False) rest_ins OBJ_MAKESPAN 0
        (init_Search (det_env path_D False) rest_ins None LNode_root 0) =
      Some ((init_Search (det_env path_D False) rest_ins None LNode_root 0)
          \<lparr>loop_cnt := 1, H_goal := Some 0\<rparr>)"
proof -
  let ?e = "det_env path_D False"
  let ?s1 = "init_Search ?e rest_ins None Constraint_root 0"
  let ?s2 = "init_Search ?e rest_ins None LNode_root 0"
  have h: "H_goal ?s1 = None" "OPEN ?s1 = 0 # []"
    "H_search_tree (nodes ?s1 ! 0) \<noteq> []" "H_C (nodes ?s1 ! 0) = goals rest_ins"
    "H_goal ?s2 = None" "OPEN ?s2 = 0 # []"
    "H_search_tree (nodes ?s2 ! 0) \<noteq> []" "H_C (nodes ?s2 ! 0) = goals rest_ins"
    by (simp_all add: init_Search_def alloc_HNode_def new_HNode_def rest_ins_def Let_def)
  have c: "loop_cnt ?s1 + 1 = 1" "loop_cnt ?s2 + 1 = 1"
    by (simp_all add: init_Search_def)
  from goal_check_break[OF h, of 5 ?e OBJ_MAKESPAN 0] show ?thesis
    unfolding c by simp
qed

text \<open>
  C3 as stated fails for LaCAM2: with the agent at its goal from the start, under
  \<open>OBJ_MAKESPAN\<close> and a deadline of five passes, LaCAM2 stops after the first pass with the
  goal node still on \<open>OPEN\<close>, where LaCAM uses all five passes.
\<close>

theorem goal_check_lacam2_counterexample:
  "loop_cnt (the (search2 (det_env path_D False) rest_ins None OBJ_MAKESPAN 0 5)) = 1
   \<and> OPEN (the (search2 (det_env path_D False) rest_ins None OBJ_MAKESPAN 0 5)) = [0]
   \<and> loop_cnt (the (search1 (det_env path_D False) rest_ins None OBJ_MAKESPAN 0 5)) = 5"
  by code_simp

subsection \<open>Re-insertion after a hit in the explored map\<close>

text \<open>
  C5 (amended). When the successor configuration is found in the explored map, the pass
  calls \<open>rewrite\<close> on the pair and then chooses the node to push: LaCAM draws a float and
  takes the hit node if the draw is at least \<open>RESTART_RATE\<close> and the root otherwise; LaCAM2
  does the same when it has a generator and always takes the root when it has none. The
  chosen node is pushed only if no goal node is recorded or its \<open>f\<close> is below the goal
  node's \<open>f\<close>.
\<close>

theorem explored_hit_reinsert:
  assumes "H_search_tree (nodes sa ! S) = M # ms"
    "\<not> (H_goal sa = None \<and> H_C (nodes sa ! S) = goals ins)"
    "sb = expand_lowlevel_tree1 env ins S M (pop_search_tree S (sa\<lparr>loop_cnt := loop_cnt sa + 1\<rparr>))"
    "get_new_config1 env ins (nodes sb ! S) M (planner sb) = Some (True, P)"
    "C_new_of P = Some C_new"
    "map_of (EXPLORED sb) C_new = Some hit"
    "H_search_tree (nodes ta ! H) = L # ls"
    "\<not> (case H_goal ta of None \<Rightarrow> False | Some hg \<Rightarrow> H_f (nodes ta ! H) \<ge> H_f (nodes ta ! hg))"
    "\<not> (H_goal ta = None \<and> H_C (nodes ta ! H) = goals ins)"
    "tb = expand_lowlevel_tree2 env ins H L (pop_search_tree H (ta\<lparr>loop_cnt := loop_cnt ta + 1\<rparr>))"
    "get_new_config2 env ins (nodes tb ! H) L (planner tb) = Some (True, P')"
    "C_new_of P' = Some C_new'"
    "map_of (EXPLORED tb) C_new' = Some hit'"
  shows "solve_iteration1 env ins objective r S sa =
           Some (False, explored_hit1 env ins objective r S hit (sb\<lparr>planner := P\<rparr>))
     \<and> solve_iteration2 env ins objective r H ta =
           Some (False, explored_hit2 env ins objective r H hit' (tb\<lparr>planner := P'\<rparr>))
     \<and> explored_hit1 env ins objective r S hit (s :: ('r, 'l) Search) =
         (let s3 = rewrite1 env ins objective S hit s;
              T = (if fst (get_random_float env (MT (planner s3))) \<ge> r then hit else 0);
              s4 = s3\<lparr>planner := (planner s3)\<lparr>MT := snd (get_random_float env (MT (planner s3)))\<rparr>\<rparr>
          in if H_goal s4 = None \<or> (\<exists>hg. H_goal s4 = Some hg \<and> H_f (nodes s4 ! T) < H_f (nodes s4 ! hg))
             then s4\<lparr>OPEN := T # OPEN s4\<rparr> else s4)
     \<and> explored_hit2 env ins objective r H hit' (t :: ('r, 'l) Search) =
         (let s3 = rewrite2 env ins objective H hit' t;
              T = (case MT (planner s3) of
                     None \<Rightarrow> 0
                   | Some g \<Rightarrow> if fst (get_random_float env (Some g)) \<ge> r then hit' else 0);
              s4 = s3\<lparr>planner := (case MT (planner s3) of
                                     None \<Rightarrow> planner s3
                                   | Some g \<Rightarrow> (planner s3)\<lparr>MT := snd (get_random_float env (Some g))\<rparr>)\<rparr>
          in if H_goal s4 = None \<or> (\<exists>hg. H_goal s4 = Some hg \<and> H_f (nodes s4 ! T) < H_f (nodes s4 ! hg))
             then s4\<lparr>OPEN := T # OPEN s4\<rparr> else s4)"
proof (intro conjI)
  show "solve_iteration1 env ins objective r S sa =
           Some (False, explored_hit1 env ins objective r S hit (sb\<lparr>planner := P\<rparr>))"
    using assms(1-6) by (auto simp: solve_iteration1_def Let_def)
  show "solve_iteration2 env ins objective r H ta =
           Some (False, explored_hit2 env ins objective r H hit' (tb\<lparr>planner := P'\<rparr>))"
    using assms(7-13) by (auto simp: solve_iteration2_def Let_def split: option.splits)
  show "explored_hit1 env ins objective r S hit s =
         (let s3 = rewrite1 env ins objective S hit s;
              T = (if fst (get_random_float env (MT (planner s3))) \<ge> r then hit else 0);
              s4 = s3\<lparr>planner := (planner s3)\<lparr>MT := snd (get_random_float env (MT (planner s3)))\<rparr>\<rparr>
          in if H_goal s4 = None \<or> (\<exists>hg. H_goal s4 = Some hg \<and> H_f (nodes s4 ! T) < H_f (nodes s4 ! hg))
             then s4\<lparr>OPEN := T # OPEN s4\<rparr> else s4)"
    by (auto simp: explored_hit1_def choose_insert1_def push_gated_def Let_def
        split: prod.splits option.splits)
  show "explored_hit2 env ins objective r H hit' t =
         (let s3 = rewrite2 env ins objective H hit' t;
              T = (case MT (planner s3) of
                     None \<Rightarrow> 0
                   | Some g \<Rightarrow> if fst (get_random_float env (Some g)) \<ge> r then hit' else 0);
              s4 = s3\<lparr>planner := (case MT (planner s3) of
                                     None \<Rightarrow> planner s3
                                   | Some g \<Rightarrow> (planner s3)\<lparr>MT := snd (get_random_float env (Some g))\<rparr>)\<rparr>
          in if H_goal s4 = None \<or> (\<exists>hg. H_goal s4 = Some hg \<and> H_f (nodes s4 ! T) < H_f (nodes s4 ! hg))
             then s4\<lparr>OPEN := T # OPEN s4\<rparr> else s4)"
    by (auto simp: explored_hit2_def choose_insert2_def push_gated_def Let_def
        split: prod.splits option.splits)
qed

text \<open>
  The facts of three passes on the T: pass 34 of LaCAM, where the top node 3 leads to the
  configuration of node 1 and a goal node is recorded; pass 24 of LaCAM, where the top node
  4 leads to the configuration of node 6; pass 2 of LaCAM2, where the top node 1 leads to
  its own configuration.
\<close>

lemma T_hit_a1:
  "H_search_tree (nodes (T_state1 33) ! 3) = T_frame1 33 3 # tl (H_search_tree (nodes (T_state1 33) ! 3))"
  "\<not> (H_goal (T_state1 33) = None \<and> H_C (nodes (T_state1 33) ! 3) = goals T_ins)"
  by code_simp+

lemma T_hit_a2:
  "get_new_config1 (det_env T_D False) T_ins (nodes (T_expanded1 33 3) ! 3) (T_frame1 33 3) (planner (T_expanded1 33 3))
            = Some (True, T_planner1 33 3)"
  "C_new_of (T_planner1 33 3) = Some [1, 2]"
  "map_of (EXPLORED (T_expanded1 33 3)) [1, 2] = Some 1"
  by code_simp+

lemma T_hit_b1:
  "H_search_tree (nodes (T_state1 23) ! 4) = T_frame1 23 4 # tl (H_search_tree (nodes (T_state1 23) ! 4))"
  "\<not> (H_goal (T_state1 23) = None \<and> H_C (nodes (T_state1 23) ! 4) = goals T_ins)"
  by code_simp+

lemma T_hit_b2:
  "get_new_config1 (det_env T_D False) T_ins (nodes (T_expanded1 23 4) ! 4) (T_frame1 23 4) (planner (T_expanded1 23 4))
            = Some (True, T_planner1 23 4)"
  "C_new_of (T_planner1 23 4) = Some [2, 1]"
  "map_of (EXPLORED (T_expanded1 23 4)) [2, 1] = Some 6"
  by code_simp+

lemma T_hit_c1:
  "H_search_tree (nodes (T_state2 1) ! 1) = T_frame2 1 1 # tl (H_search_tree (nodes (T_state2 1) ! 1))"
  "\<not> (case H_goal (T_state2 1) of None \<Rightarrow> False
       | Some hg \<Rightarrow> H_f (nodes (T_state2 1) ! 1) \<ge> H_f (nodes (T_state2 1) ! hg))"
  "\<not> (H_goal (T_state2 1) = None \<and> H_C (nodes (T_state2 1) ! 1) = goals T_ins)"
  by code_simp+

lemma T_hit_c2:
  "get_new_config2 (det_env T_D False) T_ins (nodes (T_expanded2 1 1) ! 1) (T_frame2 1 1) (planner (T_expanded2 1 1))
            = Some (True, T_planner2 1 1)"
  "C_new_of (T_planner2 1 1) = Some [1, 2]"
  "map_of (EXPLORED (T_expanded2 1 1)) [1, 2] = Some 1"
  by code_simp+

lemma T_hit_v:
  "H_goal (T_state1 33) = Some 5" "OPEN (T_state1 33) = [3, 1, 2, 1, 1, 0]"
  "OPEN (T_state1 34) = [1, 3, 1, 2, 1, 1, 0]"
  "OPEN (explored_hit1 (det_env T_D False) T_ins OBJ_MAKESPAN 1 3 1
            ((T_expanded1 33 3)\<lparr>planner := T_planner1 33 3\<rparr>)) = [0, 3, 1, 2, 1, 1, 0]"
  "H_goal (T_state1 23) = Some 5" "OPEN (T_state1 23) = [4, 3, 1, 2, 1, 1, 0]"
  "OPEN (T_state1 24) = [4, 3, 1, 2, 1, 1, 0]"
  "H_f (nodes (T_state1 24) ! 6) = 5" "H_f (nodes (T_state1 24) ! 5) = 4"
  "H_goal (T_state2 1) = None" "OPEN (T_state2 1) = [1, 0]"
  "OPEN (T_state2 2) = [1, 1, 0]"
  "OPEN (explored_hit2 (det_env T_D False) T_ins OBJ_MAKESPAN 1 1 1
            ((T_expanded2 1 1)\<lparr>planner := T_planner2 1 1\<rparr>)) = [0, 1, 0]"
  by code_simp+

theorem explored_hit_reinsert_witness:
  "solve_iteration1 (det_env T_D False) T_ins OBJ_MAKESPAN 0 3 (T_state1 33) =
     Some (False, explored_hit1 (det_env T_D False) T_ins OBJ_MAKESPAN 0 3 1
                    ((T_expanded1 33 3)\<lparr>planner := T_planner1 33 3\<rparr>))
   \<and> solve_iteration1 (det_env T_D False) T_ins OBJ_MAKESPAN 1 3 (T_state1 33) =
     Some (False, explored_hit1 (det_env T_D False) T_ins OBJ_MAKESPAN 1 3 1
                    ((T_expanded1 33 3)\<lparr>planner := T_planner1 33 3\<rparr>))
   \<and> solve_iteration1 (det_env T_D False) T_ins OBJ_MAKESPAN 0 4 (T_state1 23) =
     Some (False, explored_hit1 (det_env T_D False) T_ins OBJ_MAKESPAN 0 4 6
                    ((T_expanded1 23 4)\<lparr>planner := T_planner1 23 4\<rparr>))
   \<and> solve_iteration2 (det_env T_D False) T_ins OBJ_MAKESPAN 0 1 (T_state2 1) =
     Some (False, explored_hit2 (det_env T_D False) T_ins OBJ_MAKESPAN 0 1 1
                    ((T_expanded2 1 1)\<lparr>planner := T_planner2 1 1\<rparr>))
   \<and> solve_iteration2 (det_env T_D False) T_ins OBJ_MAKESPAN 1 1 (T_state2 1) =
     Some (False, explored_hit2 (det_env T_D False) T_ins OBJ_MAKESPAN 1 1 1
                    ((T_expanded2 1 1)\<lparr>planner := T_planner2 1 1\<rparr>))
   \<and> H_goal (T_state1 33) = Some 5 \<and> OPEN (T_state1 33) = [3, 1, 2, 1, 1, 0]
   \<and> OPEN (T_state1 34) = [1, 3, 1, 2, 1, 1, 0]
   \<and> OPEN (explored_hit1 (det_env T_D False) T_ins OBJ_MAKESPAN 1 3 1
              ((T_expanded1 33 3)\<lparr>planner := T_planner1 33 3\<rparr>)) = [0, 3, 1, 2, 1, 1, 0]
   \<and> H_goal (T_state1 23) = Some 5 \<and> OPEN (T_state1 23) = [4, 3, 1, 2, 1, 1, 0]
   \<and> OPEN (T_state1 24) = [4, 3, 1, 2, 1, 1, 0]
   \<and> H_f (nodes (T_state1 24) ! 6) = 5 \<and> H_f (nodes (T_state1 24) ! 5) = 4
   \<and> H_goal (T_state2 1) = None \<and> OPEN (T_state2 1) = [1, 0]
   \<and> OPEN (T_state2 2) = [1, 1, 0]
   \<and> OPEN (explored_hit2 (det_env T_D False) T_ins OBJ_MAKESPAN 1 1 1
              ((T_expanded2 1 1)\<lparr>planner := T_planner2 1 1\<rparr>)) = [0, 1, 0]"
  using
    explored_hit_reinsert[OF T_hit_a1 T_expanded1_def T_hit_a2 T_hit_c1 T_expanded2_def T_hit_c2,
      of OBJ_MAKESPAN 0]
    explored_hit_reinsert[OF T_hit_a1 T_expanded1_def T_hit_a2 T_hit_c1 T_expanded2_def T_hit_c2,
      of OBJ_MAKESPAN 1]
    explored_hit_reinsert[OF T_hit_b1 T_expanded1_def T_hit_b2 T_hit_c1 T_expanded2_def T_hit_c2,
      of OBJ_MAKESPAN 0]
    T_hit_v
  by blast

text \<open>
  C5 as stated fails for LaCAM2 without a generator: on the gap instance with
  \<open>RESTART_RATE = 0\<close> the third pass finds the configuration \<open>[1]\<close> of node 1 in the
  explored map, and pushes the root (node 0), where a hit node pushed with probability
  \<open>1 - RESTART_RATE = 1\<close> would be node 1.
\<close>

theorem explored_hit_no_rng_counterexample:
  "OPEN (the (search2 (det_env gap_D False) gap_ins None OBJ_MAKESPAN 0 2)) = [0, 1, 0]
   \<and> C_new_of (planner (the (search2 (det_env gap_D False) gap_ins None OBJ_MAKESPAN 0 3))) = Some [1]
   \<and> map_of (EXPLORED (the (search2 (det_env gap_D False) gap_ins None OBJ_MAKESPAN 0 2))) [1] = Some 1
   \<and> OPEN (the (search2 (det_env gap_D False) gap_ins None OBJ_MAKESPAN 0 3)) = [0, 0, 1, 0]
   \<and> fst (choose_insert2 (det_env gap_D False) 0 1
             (planner (the (search2 (det_env gap_D False) gap_ins None OBJ_MAKESPAN 0 2)))) = 0"
  by code_simp

subsection \<open>LaCAM2 never reports an optimal solution\<close>

lemma relax2_H_goal:
  "relax2 ins objective U W (st, Q) = (st', Q') \<Longrightarrow> H_goal st' = H_goal st"
  by (auto simp: relax2_def Let_def split: if_splits option.splits)

lemma fold_relax2_H_goal:
  "fold (relax2 ins objective U) Ws (st, Q) = (st', Q') \<Longrightarrow> H_goal st' = H_goal st"
proof (induction Ws arbitrary: st Q)
  case Nil
  then show ?case by simp
next
  case (Cons W Ws)
  obtain st1 Q1 where s1: "relax2 ins objective U W (st, Q) = (st1, Q1)"
    by (cases "relax2 ins objective U W (st, Q)")
  with Cons.prems have "fold (relax2 ins objective U) Ws (st1, Q1) = (st', Q')" by simp
  from Cons.IH[OF this] relax2_H_goal[OF s1] show ?case by simp
qed

lemma rewrite_loop2_H_goal:
  "H_goal (rewrite_loop2 env ins objective Q st) = H_goal st"
proof (induction env ins objective Q st rule: rewrite_loop2.induct)
  case (1 env ins objective st)
  then show ?case by (simp add: rewrite_loop2.simps)
next
  case (2 env ins objective n_from Q st)
  obtain st' Q' where f: "fold (relax2 ins objective n_from)
      (neighbor_iteration env (H_neighbor (nodes st ! n_from))) (st, Q) = (st', Q')"
    by (cases "fold (relax2 ins objective n_from)
      (neighbor_iteration env (H_neighbor (nodes st ! n_from))) (st, Q)")
  from 2[OF f[symmetric]] f fold_relax2_H_goal[OF f] show ?case
    by (simp add: rewrite_loop2.simps)
qed

lemma rewrite2_H_goal: "H_goal (rewrite2 env ins objective H hit st) = H_goal st"
  by (simp add: rewrite2_def rewrite_loop2_H_goal)

lemma push_gated_H_goal: "H_goal (push_gated T st) = H_goal st"
  by (simp add: push_gated_def)

lemma explored_hit2_H_goal: "H_goal (explored_hit2 env ins objective r H hit st) = H_goal st"
  by (simp add: explored_hit2_def Let_def push_gated_H_goal rewrite2_H_goal split: prod.splits)

lemma expand_lowlevel_tree2_H_goal: "H_goal (expand_lowlevel_tree2 env ins H L st) = H_goal st"
  by (simp add: expand_lowlevel_tree2_def Let_def split: prod.splits)

lemma pop_search_tree_H_goal: "H_goal (pop_search_tree H st) = H_goal st"
  by (simp add: pop_search_tree_def)

lemma solve_iteration2_H_goal:
  assumes "solve_iteration2 env ins objective r H st = Some (b, st')" "H_goal st = None"
  shows "(\<not> b \<and> H_goal st' = None) \<or> (b \<and> H_goal st' = Some H \<and> OPEN st' = OPEN st)"
  using assms
  by (auto simp: solve_iteration2_def Let_def push_gated_H_goal explored_hit2_H_goal
      expand_lowlevel_tree2_H_goal pop_search_tree_H_goal
      split: list.splits if_splits option.splits bool.splits prod.splits)

lemma search_loop2_H_goal:
  assumes "search_loop2 d env ins objective r st = Some st'" "H_goal st = None"
  shows "H_goal st' = None \<or> (\<exists>H rest. H_goal st' = Some H \<and> OPEN st' = H # rest)"
  using assms
proof (induction d arbitrary: st)
  case 0
  then show ?case by simp
next
  case (Suc d)
  show ?case
  proof (cases "OPEN st")
    case Nil
    with Suc.prems show ?thesis by simp
  next
    case (Cons H rest)
    with Suc.prems obtain b st1 where it: "solve_iteration2 env ins objective r H st = Some (b, st1)"
      by (auto split: option.splits)
    from solve_iteration2_H_goal[OF it Suc.prems(2)] it Suc.prems Cons Suc.IH[of st1]
    show ?thesis by (auto split: bool.splits)
  qed
qed

text \<open>
  C10. In LaCAM2 the goal node is recorded only in the pass that leaves the loop, with the
  node still on top of \<open>OPEN\<close>: whenever \<open>solve\<close> returns, either no goal node is recorded
  (and the solution is empty) or \<open>OPEN\<close> starts with the goal node, and the first line of
  \<open>additional_info\<close> is \<open>optimal=0\<close>.
\<close>

theorem lacam2_never_optimal:
  assumes "solve2 env ins mt objective r deadline = Some (solution, info)"
  shows "\<exists>st. search2 env ins mt objective r deadline = Some st
            \<and> info = additional_info2 objective st
            \<and> (H_goal st = None \<or> (\<exists>H rest. H_goal st = Some H \<and> OPEN st = H # rest))
            \<and> (solution = [] \<or> H_goal st \<noteq> None)
            \<and> hd info = (''optimal'', IBool False)
            \<and> (''optimal'', IBool True) \<notin> set info"
proof -
  from assms obtain st where st: "search2 env ins mt objective r deadline = Some st"
    and sol: "solution_of st = Some solution" and info: "info = additional_info2 objective st"
    by (auto simp: solve2_def split: option.splits)
  have "H_goal (init_Search env ins mt LNode_root (get_h_value2 env ins objective (starts ins))) = None"
    by (simp add: init_Search_def)
  from search_loop2_H_goal[OF st[unfolded search2_def] this]
  have g: "H_goal st = None \<or> (\<exists>H rest. H_goal st = Some H \<and> OPEN st = H # rest)" .
  have e: "solution = [] \<or> H_goal st \<noteq> None"
    using sol by (auto simp: solution_of_def split: option.splits)
  from g have "hd info = (''optimal'', IBool False) \<and> (''optimal'', IBool True) \<notin> set info"
    unfolding info additional_info2_def by auto
  with st info g e show ?thesis by blast
qed

theorem lacam2_never_optimal_witness:
  "\<exists>st. search2 (det_env path_D True) path_ins None OBJ_MAKESPAN 0 20 = Some st
      \<and> [(''optimal'', IBool False), (''objective'', IObjective OBJ_MAKESPAN),
          (''loop_cnt'', INat 3), (''num_node_gen'', INat 3)] = additional_info2 OBJ_MAKESPAN st
      \<and> (H_goal st = None \<or> (\<exists>H rest. H_goal st = Some H \<and> OPEN st = H # rest))
      \<and> ([[0], [1], [2]] = [] \<or> H_goal st \<noteq> None)"
proof -
  have "solve2 (det_env path_D True) path_ins None OBJ_MAKESPAN 0 20 = Some
    ([[0], [1], [2]],
     [(''optimal'', IBool False), (''objective'', IObjective OBJ_MAKESPAN),
      (''loop_cnt'', INat 3), (''num_node_gen'', INat 3)])"
    by code_simp
  from lacam2_never_optimal[OF this] show ?thesis by blast
qed

subsection \<open>Stored costs only go down\<close>

text \<open>
  How a node may change while the search runs: its configuration and \<open>h\<close> stay, and
  either \<open>g\<close> gets strictly smaller or \<open>g\<close>, \<open>f\<close> and the parent stay as they are. The
  store only grows.
\<close>

definition node_evolves :: "'l HNode \<Rightarrow> 'l HNode \<Rightarrow> bool" where
  "node_evolves n n' =
     (H_C n' = H_C n \<and> H_h n' = H_h n
      \<and> (H_g n' < H_g n
          \<or> (H_g n' = H_g n \<and> H_f n' = H_f n \<and> H_parent n' = H_parent n)))"

definition nodes_evolve :: "'l HNode list \<Rightarrow> 'l HNode list \<Rightarrow> bool" where
  "nodes_evolve ns ns' =
     (length ns \<le> length ns' \<and> list_all2 node_evolves ns (take (length ns) ns'))"

lemma node_evolves_refl [simp]: "node_evolves n n"
  by (simp add: node_evolves_def)

lemma node_evolves_trans: "node_evolves a b \<Longrightarrow> node_evolves b c \<Longrightarrow> node_evolves a c"
  by (auto simp: node_evolves_def)

lemma nodes_evolve_iff:
  "nodes_evolve ns ns' \<longleftrightarrow>
     length ns \<le> length ns' \<and> (\<forall>i<length ns. node_evolves (ns ! i) (ns' ! i))"
  by (auto simp: nodes_evolve_def list_all2_conv_all_nth)

lemma nodes_evolve_refl [simp]: "nodes_evolve ns ns"
  by (simp add: nodes_evolve_iff)

lemma nodes_evolve_trans:
  "nodes_evolve a b \<Longrightarrow> nodes_evolve b c \<Longrightarrow> nodes_evolve a c"
  unfolding nodes_evolve_iff
  by (meson node_evolves_trans order_trans less_le_trans)

lemma nodes_evolve_update:
  "node_evolves (ns ! i) n \<Longrightarrow> nodes_evolve ns (ns[i := n])"
  unfolding nodes_evolve_iff
  by (metis length_list_update nth_list_update_eq nth_list_update_neq order_refl node_evolves_refl)

lemma nodes_evolve_append: "nodes_evolve ns (ns @ ms)"
  by (auto simp: nodes_evolve_iff nth_append)

lemma relax1_evolve:
  "relax1 ins objective S T U W (st, Q) = (st', Q') \<Longrightarrow> nodes_evolve (nodes st) (nodes st')"
  by (auto simp: relax1_def Let_def update_hist_def node_evolves_def
      intro!: nodes_evolve_update split: if_splits option.splits)

lemma relax2_evolve:
  "relax2 ins objective U W (st, Q) = (st', Q') \<Longrightarrow> nodes_evolve (nodes st) (nodes st')"
  by (auto simp: relax2_def Let_def node_evolves_def
      intro!: nodes_evolve_update split: if_splits option.splits)

lemma fold_relax1_evolve:
  "fold (relax1 ins objective S T U) Ws (st, Q) = (st', Q') \<Longrightarrow> nodes_evolve (nodes st) (nodes st')"
proof (induction Ws arbitrary: st Q)
  case Nil
  then show ?case by simp
next
  case (Cons W Ws)
  obtain st1 Q1 where s1: "relax1 ins objective S T U W (st, Q) = (st1, Q1)"
    by (cases "relax1 ins objective S T U W (st, Q)")
  with Cons.prems have "fold (relax1 ins objective S T U) Ws (st1, Q1) = (st', Q')" by simp
  from Cons.IH[OF this] relax1_evolve[OF s1] show ?case by (rule nodes_evolve_trans[rotated])
qed

lemma fold_relax2_evolve:
  "fold (relax2 ins objective U) Ws (st, Q) = (st', Q') \<Longrightarrow> nodes_evolve (nodes st) (nodes st')"
proof (induction Ws arbitrary: st Q)
  case Nil
  then show ?case by simp
next
  case (Cons W Ws)
  obtain st1 Q1 where s1: "relax2 ins objective U W (st, Q) = (st1, Q1)"
    by (cases "relax2 ins objective U W (st, Q)")
  with Cons.prems have "fold (relax2 ins objective U) Ws (st1, Q1) = (st', Q')" by simp
  from Cons.IH[OF this] relax2_evolve[OF s1] show ?case by (rule nodes_evolve_trans[rotated])
qed

lemma rewrite_loop1_evolve:
  "nodes_evolve (nodes st) (nodes (rewrite_loop1 env ins objective S T Q st))"
proof (induction env ins objective S T Q st rule: rewrite_loop1.induct)
  case (1 env ins objective S T st)
  then show ?case by (simp add: rewrite_loop1.simps)
next
  case (2 env ins objective S T U Q st)
  obtain st' Q' where f: "fold (relax1 ins objective S T U)
      (neighbor_iteration env (H_neighbor (nodes st ! U))) (st, Q) = (st', Q')"
    by (cases "fold (relax1 ins objective S T U)
      (neighbor_iteration env (H_neighbor (nodes st ! U))) (st, Q)")
  from 2[OF f[symmetric]] fold_relax1_evolve[OF f] f show ?case
    by (simp add: rewrite_loop1.simps nodes_evolve_trans)
qed

lemma rewrite_loop2_evolve:
  "nodes_evolve (nodes st) (nodes (rewrite_loop2 env ins objective Q st))"
proof (induction env ins objective Q st rule: rewrite_loop2.induct)
  case (1 env ins objective st)
  then show ?case by (simp add: rewrite_loop2.simps)
next
  case (2 env ins objective U Q st)
  obtain st' Q' where f: "fold (relax2 ins objective U)
      (neighbor_iteration env (H_neighbor (nodes st ! U))) (st, Q) = (st', Q')"
    by (cases "fold (relax2 ins objective U)
      (neighbor_iteration env (H_neighbor (nodes st ! U))) (st, Q)")
  from 2[OF f[symmetric]] fold_relax2_evolve[OF f] f show ?case
    by (simp add: rewrite_loop2.simps nodes_evolve_trans)
qed

lemma add_neighbor_evolve: "nodes_evolve ns (add_neighbor S T ns)"
  by (auto simp: add_neighbor_def node_evolves_def intro!: nodes_evolve_update)

lemma rewrite1_evolve: "nodes_evolve (nodes st) (nodes (rewrite1 env ins objective S T st))"
proof -
  let ?ns = "add_neighbor T S (add_neighbor S T (nodes st))"
  have a: "nodes_evolve (nodes st) ?ns"
    by (rule nodes_evolve_trans[OF add_neighbor_evolve add_neighbor_evolve])
  have b: "nodes_evolve ?ns (nodes (rewrite_loop1 env ins objective S T [S] (st\<lparr>nodes := ?ns\<rparr>)))"
    using rewrite_loop1_evolve[of "st\<lparr>nodes := ?ns\<rparr>" env ins objective S T "[S]"] by simp
  show ?thesis
    unfolding rewrite1_def Let_def
    using a nodes_evolve_trans[OF a b] by simp
qed

lemma rewrite2_evolve: "nodes_evolve (nodes st) (nodes (rewrite2 env ins objective S T st))"
proof -
  let ?ns = "add_neighbor S T (nodes st)"
  have b: "nodes_evolve ?ns (nodes (rewrite_loop2 env ins objective [S] (st\<lparr>nodes := ?ns\<rparr>)))"
    using rewrite_loop2_evolve[of "st\<lparr>nodes := ?ns\<rparr>" env ins objective "[S]"] by simp
  show ?thesis
    unfolding rewrite2_def
    using nodes_evolve_trans[OF add_neighbor_evolve b] by simp
qed

lemma push_gated_nodes [simp]: "nodes (push_gated T st) = nodes st"
  by (simp add: push_gated_def)

lemma explored_hit1_evolve:
  "nodes_evolve (nodes st) (nodes (explored_hit1 env ins objective r S hit st))"
  by (simp add: explored_hit1_def Let_def rewrite1_evolve split: prod.splits)

lemma explored_hit2_evolve:
  "nodes_evolve (nodes st) (nodes (explored_hit2 env ins objective r S hit st))"
  by (simp add: explored_hit2_def Let_def rewrite2_evolve split: prod.splits)

lemma alloc_HNode_evolve: "nodes_evolve ns (alloc_HNode env rf ns C parent g h)"
proof (cases parent)
  case None
  then show ?thesis by (simp add: alloc_HNode_def Let_def nodes_evolve_append)
next
  case (Some p)
  have "nodes_evolve ns (ns[p := (ns ! p)\<lparr>H_neighbor := List.insert (length ns) (H_neighbor (ns ! p))\<rparr>])"
    by (rule nodes_evolve_update) (simp add: node_evolves_def)
  from nodes_evolve_trans[OF this nodes_evolve_append] Some show ?thesis
    by (simp add: alloc_HNode_def Let_def)
qed

lemma pop_search_tree_evolve: "nodes_evolve (nodes st) (nodes (pop_search_tree H st))"
  by (auto simp: pop_search_tree_def node_evolves_def intro!: nodes_evolve_update)

lemma push_frames_evolve: "nodes_evolve ns (push_frames H fs ns)"
  by (auto simp: push_frames_def node_evolves_def intro!: nodes_evolve_update)

lemma expand_lowlevel_tree1_evolve:
  "nodes_evolve (nodes st) (nodes (expand_lowlevel_tree1 env ins S M st))"
  by (simp add: expand_lowlevel_tree1_def Let_def push_frames_evolve split: prod.splits)

lemma expand_lowlevel_tree2_evolve:
  "nodes_evolve (nodes st) (nodes (expand_lowlevel_tree2 env ins S M st))"
  by (simp add: expand_lowlevel_tree2_def Let_def push_frames_evolve split: prod.splits)

lemma solve_iteration1_evolve:
  assumes "solve_iteration1 env ins objective r S st = Some (b, st')"
  shows "nodes_evolve (nodes st) (nodes st')"
proof -
  let ?st = "st\<lparr>loop_cnt := loop_cnt st + 1\<rparr>"
  show ?thesis
  proof (cases "H_search_tree (nodes st ! S)")
    case Nil
    with assms show ?thesis by (auto simp: solve_iteration1_def Let_def)
  next
    case (Cons M ms)
    let ?st1 = "expand_lowlevel_tree1 env ins S M (pop_search_tree S ?st)"
    have e1: "nodes_evolve (nodes st) (nodes ?st1)"
      using nodes_evolve_trans[OF pop_search_tree_evolve[of ?st S] expand_lowlevel_tree1_evolve]
      by simp
    have e2: "nodes_evolve (nodes st) (nodes (explored_hit1 env ins objective r S hit (?st1\<lparr>planner := P\<rparr>)))"
      for hit P
      using explored_hit1_evolve[of "?st1\<lparr>planner := P\<rparr>" env ins objective r S hit] e1
      by (auto intro: nodes_evolve_trans)
    have e3: "nodes_evolve (nodes st) (alloc_HNode env rf (nodes ?st1) C p g h)" for rf C p g h
      by (rule nodes_evolve_trans[OF e1 alloc_HNode_evolve])
    from assms Cons e1 e2 e3 show ?thesis
      by (auto simp: solve_iteration1_def Let_def update_hist_def
          split: if_splits option.splits bool.splits)
  qed
qed

lemma solve_iteration2_evolve:
  assumes "solve_iteration2 env ins objective r S st = Some (b, st')"
  shows "nodes_evolve (nodes st) (nodes st')"
proof -
  let ?st = "st\<lparr>loop_cnt := loop_cnt st + 1\<rparr>"
  show ?thesis
  proof (cases "H_search_tree (nodes st ! S)")
    case Nil
    with assms show ?thesis by (auto simp: solve_iteration2_def Let_def)
  next
    case (Cons M ms)
    let ?st1 = "expand_lowlevel_tree2 env ins S M (pop_search_tree S ?st)"
    have e1: "nodes_evolve (nodes st) (nodes ?st1)"
      using nodes_evolve_trans[OF pop_search_tree_evolve[of ?st S] expand_lowlevel_tree2_evolve]
      by simp
    have e2: "nodes_evolve (nodes st) (nodes (explored_hit2 env ins objective r S hit (?st1\<lparr>planner := P\<rparr>)))"
      for hit P
      using explored_hit2_evolve[of "?st1\<lparr>planner := P\<rparr>" env ins objective r S hit] e1
      by (auto intro: nodes_evolve_trans)
    have e3: "nodes_evolve (nodes st) (alloc_HNode env rf (nodes ?st1) C p g h)" for rf C p g h
      by (rule nodes_evolve_trans[OF e1 alloc_HNode_evolve])
    from assms Cons e1 e2 e3 show ?thesis
      by (auto simp: solve_iteration2_def Let_def
          split: if_splits option.splits bool.splits)
  qed
qed

lemma search_loop1_evolve:
  "search_loop1 d env ins objective r st = Some st' \<Longrightarrow> nodes_evolve (nodes st) (nodes st')"
proof (induction d arbitrary: st)
  case 0
  then show ?case by simp
next
  case (Suc d)
  show ?case
  proof (cases "OPEN st")
    case Nil
    with Suc.prems show ?thesis by simp
  next
    case (Cons S rest)
    with Suc.prems obtain b st1 where it: "solve_iteration1 env ins objective r S st = Some (b, st1)"
      by (auto split: option.splits)
    from solve_iteration1_evolve[OF it] it Suc.prems Cons Suc.IH[of st1]
    show ?thesis by (auto split: bool.splits intro: nodes_evolve_trans)
  qed
qed

lemma search_loop2_evolve:
  "search_loop2 d env ins objective r st = Some st' \<Longrightarrow> nodes_evolve (nodes st) (nodes st')"
proof (induction d arbitrary: st)
  case 0
  then show ?case by simp
next
  case (Suc d)
  show ?case
  proof (cases "OPEN st")
    case Nil
    with Suc.prems show ?thesis by simp
  next
    case (Cons S rest)
    with Suc.prems obtain b st1 where it: "solve_iteration2 env ins objective r S st = Some (b, st1)"
      by (auto split: option.splits)
    from solve_iteration2_evolve[OF it] it Suc.prems Cons Suc.IH[of st1]
    show ?thesis by (auto split: bool.splits intro: nodes_evolve_trans)
  qed
qed

lemma update_hist_nodes [simp]: "nodes (update_hist st) = nodes st"
  by (simp add: update_hist_def split: option.splits)

lemma relax1_nodes:
  "nodes (fst (relax1 ins objective S T U W (t1, Q1))) =
         (if \<not> (U = S \<and> W \<noteq> T) \<and> W < length (nodes t1)
             \<and> H_g (nodes t1 ! U) + get_edge_cost1 ins objective (H_C (nodes t1 ! U)) (H_C (nodes t1 ! W))
                 < H_g (nodes t1 ! W)
          then (nodes t1)[W := (nodes t1 ! W)
                 \<lparr>H_g := H_g (nodes t1 ! U)
                          + get_edge_cost1 ins objective (H_C (nodes t1 ! U)) (H_C (nodes t1 ! W)),
                  H_f := H_g (nodes t1 ! U)
                          + get_edge_cost1 ins objective (H_C (nodes t1 ! U)) (H_C (nodes t1 ! W))
                          + H_h (nodes t1 ! W),
                  H_parent := Some U\<rparr>]
          else nodes t1)"
  by (auto simp: relax1_def Let_def)

lemma relax2_nodes:
  "nodes (fst (relax2 ins objective U W (t2, Q2))) =
         (if W < length (nodes t2)
             \<and> H_g (nodes t2 ! U) + get_edge_cost2 ins objective (H_C (nodes t2 ! U)) (H_C (nodes t2 ! W))
                 < H_g (nodes t2 ! W)
          then (nodes t2)[W := (nodes t2 ! W)
                 \<lparr>H_g := H_g (nodes t2 ! U)
                          + get_edge_cost2 ins objective (H_C (nodes t2 ! U)) (H_C (nodes t2 ! W)),
                  H_f := H_g (nodes t2 ! U)
                          + get_edge_cost2 ins objective (H_C (nodes t2 ! U)) (H_C (nodes t2 ! W))
                          + H_h (nodes t2 ! W),
                  H_parent := Some U\<rparr>]
          else nodes t2)"
  by (simp add: relax2_def Let_def split: option.splits)



subsection \<open>What the single-step planner leaves alone\<close>

declare funcPIBT1.simps [simp del] PIBT_loop1.simps [simp del]
declare funcPIBT2.simps [simp del] PIBT_loop2.simps [simp del]

abbreviation vnow :: "'r Planner \<Rightarrow> nat \<Rightarrow> nat option" where
  "vnow P a \<equiv> v_now (Agents P ! a)"

abbreviation vnext :: "'r Planner \<Rightarrow> nat \<Rightarrow> nat option" where
  "vnext P a \<equiv> v_next (Agents P ! a)"

lemma nth_update_field:
  "f ((xs[i := g (xs ! i)]) ! a) = (if a = i \<and> i < length xs then f (g (xs ! i)) else f (xs ! a))"
  by (cases "i < length xs") (auto simp: nth_list_update list_update_beyond)

lemma set_v_next_simps [simp]:
  "MT (set_v_next a v P) = MT P"
  "C_next (set_v_next a v P) = C_next P"
  "tie_breakers (set_v_next a v P) = tie_breakers P"
  "occupied_now (set_v_next a v P) = occupied_now P"
  "occupied_next (set_v_next a v P) = occupied_next P"
  "length (Agents (set_v_next a v P)) = length (Agents P)"
  "vnow (set_v_next a v P) b = vnow P b"
  "vnext (set_v_next a v P) b = (if b = a \<and> a < length (Agents P) then v else vnext P b)"
  by (cases "a < length (Agents P)"; simp add: set_v_next_def nth_list_update list_update_beyond)+

lemma set_v_now_simps [simp]:
  "MT (set_v_now a v P) = MT P"
  "C_next (set_v_now a v P) = C_next P"
  "tie_breakers (set_v_now a v P) = tie_breakers P"
  "occupied_now (set_v_now a v P) = occupied_now P"
  "occupied_next (set_v_now a v P) = occupied_next P"
  "length (Agents (set_v_now a v P)) = length (Agents P)"
  "vnext (set_v_now a v P) b = vnext P b"
  "vnow (set_v_now a v P) b = (if b = a \<and> a < length (Agents P) then v else vnow P b)"
  by (cases "a < length (Agents P)"; simp add: set_v_now_def nth_list_update list_update_beyond)+

lemma set_occupied_next_simps [simp]:
  "MT (set_occupied_next u x P) = MT P"
  "C_next (set_occupied_next u x P) = C_next P"
  "tie_breakers (set_occupied_next u x P) = tie_breakers P"
  "occupied_now (set_occupied_next u x P) = occupied_now P"
  "Agents (set_occupied_next u x P) = Agents P"
  "length (occupied_next (set_occupied_next u x P)) = length (occupied_next P)"
  "occupied_next (set_occupied_next u x P) ! w
     = (if w = u \<and> u < length (occupied_next P) then x else occupied_next P ! w)"
  by (cases "u < length (occupied_next P)"; simp add: set_occupied_next_def nth_list_update list_update_beyond)+

lemma set_occupied_now_simps [simp]:
  "MT (set_occupied_now u x P) = MT P"
  "C_next (set_occupied_now u x P) = C_next P"
  "tie_breakers (set_occupied_now u x P) = tie_breakers P"
  "occupied_next (set_occupied_now u x P) = occupied_next P"
  "Agents (set_occupied_now u x P) = Agents P"
  "length (occupied_now (set_occupied_now u x P)) = length (occupied_now P)"
  "occupied_now (set_occupied_now u x P) ! w
     = (if w = u \<and> u < length (occupied_now P) then x else occupied_now P ! w)"
  by (cases "u < length (occupied_now P)"; simp add: set_occupied_now_def nth_list_update list_update_beyond)+

lemma reserve_simps [simp]:
  "MT (reserve a u P) = MT P"
  "C_next (reserve a u P) = C_next P"
  "tie_breakers (reserve a u P) = tie_breakers P"
  "occupied_now (reserve a u P) = occupied_now P"
  "length (Agents (reserve a u P)) = length (Agents P)"
  "length (occupied_next (reserve a u P)) = length (occupied_next P)"
  "vnow (reserve a u P) b = vnow P b"
  "vnext (reserve a u P) b = (if b = a \<and> a < length (Agents P) then Some u else vnext P b)"
  "occupied_next (reserve a u P) ! w
     = (if w = u \<and> u < length (occupied_next P) then Some a else occupied_next P ! w)"
  by (simp_all add: reserve_def)

lemma draw_tie_breaker_simps [simp]:
  "C_next (draw_tie_breaker env u P) = C_next P"
  "Agents (draw_tie_breaker env u P) = Agents P"
  "occupied_now (draw_tie_breaker env u P) = occupied_now P"
  "occupied_next (draw_tie_breaker env u P) = occupied_next P"
  by (simp_all add: draw_tie_breaker_def split: prod.splits)

lemma fold_draw_tie_breaker_simps [simp]:
  "C_next (fold (draw_tie_breaker env) us P) = C_next P"
  "Agents (fold (draw_tie_breaker env) us P) = Agents P"
  "occupied_now (fold (draw_tie_breaker env) us P) = occupied_now P"
  "occupied_next (fold (draw_tie_breaker env) us P) = occupied_next P"
  by (induction us arbitrary: P) simp_all

lemma set_candidates_simps [simp]:
  "Agents (set_candidates env ins i v P) = Agents P"
  "occupied_now (set_candidates env ins i v P) = occupied_now P"
  "occupied_next (set_candidates env ins i v P) = occupied_next P"
  "length (C_next (set_candidates env ins i v P)) = length (C_next P)"
  by (simp_all add: set_candidates_def Let_def)

text \<open>The tables and fields that \<open>funcPIBT\<close> never writes.\<close>

definition planner_frame :: "'r Planner \<Rightarrow> 'r Planner \<Rightarrow> bool" where
  "planner_frame P P' =
     (length (Agents P') = length (Agents P)
      \<and> length (occupied_next P') = length (occupied_next P)
      \<and> length (C_next P') = length (C_next P)
      \<and> occupied_now P' = occupied_now P
      \<and> (\<forall>a. vnow P' a = vnow P a))"

lemma planner_frame_refl [simp]: "planner_frame P P"
  by (simp add: planner_frame_def)

lemma planner_frame_trans: "planner_frame P P1 \<Longrightarrow> planner_frame P1 P2 \<Longrightarrow> planner_frame P P2"
  by (simp add: planner_frame_def)

lemma planner_frame_reserve [simp]: "planner_frame P (reserve a u P)"
  by (simp add: planner_frame_def)

lemma planner_frame_set_candidates [simp]: "planner_frame P (set_candidates env ins i v P)"
  by (simp add: planner_frame_def)

text \<open>The ways a pass through \<open>PIBT_loop1\<close> can go.\<close>

lemma PIBT_loop1_cases:
  assumes "PIBT_loop1 n env ins K v ai aj k P = Some (b, P')"
  obtains
    (exhausted) "\<not> k < K + 1" "b = False" "P' = reserve ai v P"
  | (skip) "k < K + 1" "PIBT_loop1 n env ins K v ai aj (k + 1) P = Some (b, P')"
      "occupied_next P ! (C_next P ! ai ! k) \<noteq> None
       \<or> (\<exists>j. aj = Some j \<and> Some (C_next P ! ai ! k) = vnow P j)
       \<or> (\<exists>a. occupied_now P ! (C_next P ! ai ! k) = Some a \<and> vnext P a = Some v)"
  | (free) "k < K + 1" "occupied_next P ! (C_next P ! ai ! k) = None"
      "\<forall>a. occupied_now P ! (C_next P ! ai ! k) = Some a \<longrightarrow> vnext P a \<noteq> Some v"
      "b = True" "P' = reserve ai (C_next P ! ai ! k) P"
      "occupied_now P ! (C_next P ! ai ! k) = None \<or> C_next P ! ai ! k = v
       \<or> (\<exists>a. occupied_now P ! (C_next P ! ai ! k) = Some a
               \<and> vnext (reserve ai (C_next P ! ai ! k) P) a \<noteq> None)"
  | (inherit) a where "k < K + 1" "occupied_next P ! (C_next P ! ai ! k) = None"
      "occupied_now P ! (C_next P ! ai ! k) = Some a" "vnext P a \<noteq> Some v"
      "C_next P ! ai ! k \<noteq> v" "vnext (reserve ai (C_next P ! ai ! k) P) a = None"
      "funcPIBT1 n env ins a (Some ai) (reserve ai (C_next P ! ai ! k) P) = Some (True, P')"
      "b = True"
  | (retry) a P2 where "k < K + 1" "occupied_next P ! (C_next P ! ai ! k) = None"
      "occupied_now P ! (C_next P ! ai ! k) = Some a" "vnext P a \<noteq> Some v"
      "C_next P ! ai ! k \<noteq> v" "vnext (reserve ai (C_next P ! ai ! k) P) a = None"
      "funcPIBT1 n env ins a (Some ai) (reserve ai (C_next P ! ai ! k) P) = Some (False, P2)"
      "PIBT_loop1 n env ins K v ai aj (k + 1) P2 = Some (b, P')"
proof -
  note eq = assms[unfolded PIBT_loop1.simps[of n env ins K v ai aj k P]]
  let ?u = "C_next P ! ai ! k"
  show thesis
  proof (cases "k < K + 1")
    case False
    with eq have "b = False" "P' = reserve ai v P" by auto
    with False show thesis using that(1) by auto
  next
    case kK: True
    show thesis
    proof (cases "occupied_next P ! ?u \<noteq> None
       \<or> (\<exists>j. aj = Some j \<and> Some ?u = vnow P j)
       \<or> (\<exists>a. occupied_now P ! ?u = Some a \<and> vnext P a = Some v)")
      case True
      with eq kK have "PIBT_loop1 n env ins K v ai aj (k + 1) P = Some (b, P')"
        by (auto simp: Let_def split: option.splits if_splits)
      with kK True show thesis using that(2) by auto
    next
      case ns: False
      then have n1: "occupied_next P ! ?u = None"
        and n2: "\<forall>a. occupied_now P ! ?u = Some a \<longrightarrow> vnext P a \<noteq> Some v"
        and n3: "\<not> (case aj of None \<Rightarrow> False | Some j \<Rightarrow> Some ?u = vnow P j)"
        by (auto split: option.splits)
      show thesis
      proof (cases "occupied_now P ! ?u")
        case None
        with eq kK n1 n3 have "b = True" "P' = reserve ai ?u P"
          by (auto simp: Let_def)
        with kK n1 n2 None show thesis using that(3) by auto
      next
        case (Some a)
        with n2 have na: "vnext P a \<noteq> Some v" by simp
        from eq kK n1 n3 Some na
        have eq': "(if ?u = v then Some (True, reserve ai ?u P)
                   else if vnext (reserve ai ?u P) a = None then
                     (case funcPIBT1 n env ins a (Some ai) (reserve ai ?u P) of
                        None \<Rightarrow> None
                      | Some (True, P2) \<Rightarrow> Some (True, P2)
                      | Some (False, P2) \<Rightarrow> PIBT_loop1 n env ins K v ai aj (k + 1) P2)
                   else Some (True, reserve ai ?u P)) = Some (b, P')"
          by (simp add: Let_def)
        show thesis
        proof (cases "?u = v \<or> vnext (reserve ai ?u P) a \<noteq> None")
          case True
          with eq' have "b = True" "P' = reserve ai ?u P" by (auto split: if_splits)
          with kK n1 n2 Some True show thesis using that(3) by auto
        next
          case False
          then have f1: "?u \<noteq> v" and f2: "vnext (reserve ai ?u P) a = None" by auto
          with eq' have eq'': "(case funcPIBT1 n env ins a (Some ai) (reserve ai ?u P) of
                        None \<Rightarrow> None
                      | Some (True, P2) \<Rightarrow> Some (True, P2)
                      | Some (False, P2) \<Rightarrow> PIBT_loop1 n env ins K v ai aj (k + 1) P2)
                  = Some (b, P')"
            by (simp only: if_False if_True refl)
          show thesis
          proof (cases "funcPIBT1 n env ins a (Some ai) (reserve ai ?u P)")
            case None
            with eq'' show thesis by simp
          next
            case (Some r)
            obtain b2 P2 where r: "r = (b2, P2)" by (cases r)
            show thesis
            proof (cases b2)
              case True
              with eq'' Some r have "b = True" "P' = P2" by auto
              with kK n1 \<open>occupied_now P ! ?u = Some a\<close> na f1 f2 Some r True
              show thesis using that(4)[of a] by auto
            next
              case False
              with eq'' Some r have "PIBT_loop1 n env ins K v ai aj (k + 1) P2 = Some (b, P')"
                by auto
              with kK n1 \<open>occupied_now P ! ?u = Some a\<close> na f1 f2 Some r False
              show thesis using that(5)[of a P2] by auto
            qed
          qed
        qed
      qed
    qed
  qed
qed

lemma funcPIBT1_cases:
  assumes "funcPIBT1 n env ins ai aj P = Some (b, P')"
  obtains m v where "n = Suc m" "vnow P ai = Some v"
    "PIBT_loop1 m env ins (length (neighbor_of ins v)) v ai aj 0 (set_candidates env ins ai v P)
       = Some (b, P')"
  using assms by (cases n) (auto simp: funcPIBT1.simps split: option.splits if_splits)

text \<open>
  Induction over an execution of \<open>funcPIBT1\<close>: a property of the calls (\<open>Call\<close>) and of
  the loop (\<open>Loop\<close>), each relating the state before to the result.
\<close>

lemma PIBT1_induct:
  fixes Call :: "nat \<Rightarrow> nat \<Rightarrow> nat option \<Rightarrow> 'r Planner \<Rightarrow> bool \<Rightarrow> 'r Planner \<Rightarrow> bool"
    and Loop :: "nat \<Rightarrow> nat \<Rightarrow> nat \<Rightarrow> nat \<Rightarrow> nat option \<Rightarrow> nat \<Rightarrow> 'r Planner \<Rightarrow> bool \<Rightarrow> 'r Planner \<Rightarrow> bool"
  assumes enter: "\<And>n ai aj P b P' v.
      \<lbrakk>vnow P ai = Some v;
       PIBT_loop1 n env ins (length (neighbor_of ins v)) v ai aj 0 (set_candidates env ins ai v P)
         = Some (b, P');
       Loop n (length (neighbor_of ins v)) v ai aj 0 (set_candidates env ins ai v P) b P'\<rbrakk>
      \<Longrightarrow> Call (Suc n) ai aj P b P'"
    and exhausted: "\<And>n K v ai aj k P. \<not> k < K + 1 \<Longrightarrow> Loop n K v ai aj k P False (reserve ai v P)"
    and skip: "\<And>n K v ai aj k P b P'.
      \<lbrakk>k < K + 1;
       occupied_next P ! (C_next P ! ai ! k) \<noteq> None
       \<or> (\<exists>j. aj = Some j \<and> Some (C_next P ! ai ! k) = vnow P j)
       \<or> (\<exists>a. occupied_now P ! (C_next P ! ai ! k) = Some a \<and> vnext P a = Some v);
       PIBT_loop1 n env ins K v ai aj (k + 1) P = Some (b, P');
       Loop n K v ai aj (k + 1) P b P'\<rbrakk>
      \<Longrightarrow> Loop n K v ai aj k P b P'"
    and free: "\<And>n K v ai aj k P.
      \<lbrakk>k < K + 1; occupied_next P ! (C_next P ! ai ! k) = None;
       \<forall>a. occupied_now P ! (C_next P ! ai ! k) = Some a \<longrightarrow> vnext P a \<noteq> Some v;
       occupied_now P ! (C_next P ! ai ! k) = None \<or> C_next P ! ai ! k = v
       \<or> (\<exists>a. occupied_now P ! (C_next P ! ai ! k) = Some a
               \<and> vnext (reserve ai (C_next P ! ai ! k) P) a \<noteq> None)\<rbrakk>
      \<Longrightarrow> Loop n K v ai aj k P True (reserve ai (C_next P ! ai ! k) P)"
    and inherit: "\<And>n K v ai aj k P a P'.
      \<lbrakk>k < K + 1; occupied_next P ! (C_next P ! ai ! k) = None;
       occupied_now P ! (C_next P ! ai ! k) = Some a; vnext P a \<noteq> Some v;
       C_next P ! ai ! k \<noteq> v; vnext (reserve ai (C_next P ! ai ! k) P) a = None;
       funcPIBT1 n env ins a (Some ai) (reserve ai (C_next P ! ai ! k) P) = Some (True, P');
       Call n a (Some ai) (reserve ai (C_next P ! ai ! k) P) True P'\<rbrakk>
      \<Longrightarrow> Loop n K v ai aj k P True P'"
    and retry: "\<And>n K v ai aj k P a P2 b P'.
      \<lbrakk>k < K + 1; occupied_next P ! (C_next P ! ai ! k) = None;
       occupied_now P ! (C_next P ! ai ! k) = Some a; vnext P a \<noteq> Some v;
       C_next P ! ai ! k \<noteq> v; vnext (reserve ai (C_next P ! ai ! k) P) a = None;
       funcPIBT1 n env ins a (Some ai) (reserve ai (C_next P ! ai ! k) P) = Some (False, P2);
       Call n a (Some ai) (reserve ai (C_next P ! ai ! k) P) False P2;
       PIBT_loop1 n env ins K v ai aj (k + 1) P2 = Some (b, P');
       Loop n K v ai aj (k + 1) P2 b P'\<rbrakk>
      \<Longrightarrow> Loop n K v ai aj k P b P'"
  shows "funcPIBT1 n env ins ai aj P = Some (b, P') \<Longrightarrow> Call n ai aj P b P'"
    and "PIBT_loop1 n env ins K v ai aj k P = Some (b, P') \<Longrightarrow> Loop n K v ai aj k P b P'"
proof -
  have loop: "Loop n K v ai aj k P b P'"
    if calls: "\<And>a aj P b P'. funcPIBT1 n env ins a aj P = Some (b, P') \<Longrightarrow> Call n a aj P b P'"
      and run: "PIBT_loop1 n env ins K v ai aj k P = Some (b, P')"
    for n K v ai aj k P b P'
    using run
  proof (induction "K + 1 - k" arbitrary: k P)
    case 0
    from "0.prems" show ?case
    proof (cases rule: PIBT_loop1_cases)
      case exhausted
      then show ?thesis using assms(2) by simp
    qed (use 0 in simp_all)
  next
    case (Suc d)
    have step: "Loop n K v ai aj (k + 1) P2 b P'"
      if "PIBT_loop1 n env ins K v ai aj (k + 1) P2 = Some (b, P')" for P2
      using Suc.hyps(1)[of "k + 1" P2] Suc.hyps(2) that by simp
    from Suc.prems show ?case
    proof (cases rule: PIBT_loop1_cases)
      case exhausted
      then show ?thesis using assms(2) by simp
    next
      case skip
      from assms(3)[OF skip(1) skip(3) skip(2) step[OF skip(2)]] show ?thesis .
    next
      case free
      from assms(4)[OF free(1,2,3,6)] free(4,5) show ?thesis by simp
    next
      case (inherit a)
      from assms(5)[OF inherit(1-7) calls[OF inherit(7)]] inherit(8) show ?thesis by simp
    next
      case (retry a P2)
      from assms(6)[OF retry(1-7) calls[OF retry(7)] retry(8) step[OF retry(8)]]
      show ?thesis .
    qed
  qed
  have call: "funcPIBT1 n env ins ai aj P = Some (b, P') \<longrightarrow> Call n ai aj P b P'"
    for n ai aj P b P'
  proof (induction n arbitrary: ai aj P b P')
    case 0
    then show ?case by (simp add: funcPIBT1.simps)
  next
    case (Suc n)
    show ?case
    proof
      assume r: "funcPIBT1 (Suc n) env ins ai aj P = Some (b, P')"
      from r show "Call (Suc n) ai aj P b P'"
      proof (cases rule: funcPIBT1_cases)
        case (1 m v)
        then have m: "m = n" by simp
        from 1(3) have l: "PIBT_loop1 n env ins (length (neighbor_of ins v)) v ai aj 0
            (set_candidates env ins ai v P) = Some (b, P')" unfolding m .
        have "Loop n (length (neighbor_of ins v)) v ai aj 0 (set_candidates env ins ai v P) b P'"
          by (rule loop[OF _ l]) (use Suc.IH in blast)
        from assms(1)[OF 1(2) l this] show ?thesis .
      qed
    qed
  qed
  show "funcPIBT1 n env ins ai aj P = Some (b, P') \<Longrightarrow> Call n ai aj P b P'"
    using call by blast
  show "PIBT_loop1 n env ins K v ai aj k P = Some (b, P') \<Longrightarrow> Loop n K v ai aj k P b P'"
    by (rule loop) (use call in blast)
qed

text \<open>The ways a pass through \<open>PIBT_loop2\<close> can go.\<close>

lemma PIBT_loop2_cases:
  assumes "PIBT_loop2 n env ins K v ai sa k P = Some (b, P')"
  obtains
    (exhausted) "\<not> k < K + 1" "b = False" "P' = reserve ai v P"
  | (skip) "k < K + 1" "PIBT_loop2 n env ins K v ai sa (k + 1) P = Some (b, P')"
      "occupied_next P ! (C_next P ! ai ! k) \<noteq> None
       \<or> (\<exists>a. occupied_now P ! (C_next P ! ai ! k) = Some a \<and> vnext P a = Some v)"
  | (free) "k < K + 1" "occupied_next P ! (C_next P ! ai ! k) = None"
      "\<forall>a. occupied_now P ! (C_next P ! ai ! k) = Some a \<longrightarrow> vnext P a \<noteq> Some v"
      "b = True" "P' = pull_swap_agent env k sa v (reserve ai (C_next P ! ai ! k) P)"
      "occupied_now P ! (C_next P ! ai ! k) = None \<or> occupied_now P ! (C_next P ! ai ! k) = Some ai
       \<or> (\<exists>a. occupied_now P ! (C_next P ! ai ! k) = Some a
               \<and> vnext (reserve ai (C_next P ! ai ! k) P) a \<noteq> None)"
  | (inherit) a P2 where "k < K + 1" "occupied_next P ! (C_next P ! ai ! k) = None"
      "occupied_now P ! (C_next P ! ai ! k) = Some a" "vnext P a \<noteq> Some v"
      "a \<noteq> ai" "vnext (reserve ai (C_next P ! ai ! k) P) a = None"
      "funcPIBT2 n env ins a (reserve ai (C_next P ! ai ! k) P) = Some (True, P2)"
      "b = True" "P' = pull_swap_agent env k sa v P2"
  | (retry) a P2 where "k < K + 1" "occupied_next P ! (C_next P ! ai ! k) = None"
      "occupied_now P ! (C_next P ! ai ! k) = Some a" "vnext P a \<noteq> Some v"
      "a \<noteq> ai" "vnext (reserve ai (C_next P ! ai ! k) P) a = None"
      "funcPIBT2 n env ins a (reserve ai (C_next P ! ai ! k) P) = Some (False, P2)"
      "PIBT_loop2 n env ins K v ai sa (k + 1) P2 = Some (b, P')"
proof -
  note eq = assms[unfolded PIBT_loop2.simps[of n env ins K v ai sa k P]]
  let ?u = "C_next P ! ai ! k"
  show thesis
  proof (cases "k < K + 1")
    case False
    with eq have "b = False" "P' = reserve ai v P" by auto
    with False show thesis using that(1) by auto
  next
    case kK: True
    show thesis
    proof (cases "occupied_next P ! ?u \<noteq> None
       \<or> (\<exists>a. occupied_now P ! ?u = Some a \<and> vnext P a = Some v)")
      case True
      with eq kK have "PIBT_loop2 n env ins K v ai sa (k + 1) P = Some (b, P')"
        by (auto simp: Let_def split: option.splits if_splits)
      with kK True show thesis using that(2) by auto
    next
      case ns: False
      then have n1: "occupied_next P ! ?u = None"
        and n2: "\<forall>a. occupied_now P ! ?u = Some a \<longrightarrow> vnext P a \<noteq> Some v"
        by (auto split: option.splits)
      show thesis
      proof (cases "occupied_now P ! ?u")
        case None
        with eq kK n1 have "b = True" "P' = pull_swap_agent env k sa v (reserve ai ?u P)"
          by (auto simp: Let_def)
        with kK n1 n2 None show thesis using that(3) by auto
      next
        case (Some a)
        with n2 have na: "vnext P a \<noteq> Some v" by simp
        from eq kK n1 Some na
        have eq': "(if a \<noteq> ai \<and> vnext (reserve ai ?u P) a = None then
                     (case funcPIBT2 n env ins a (reserve ai ?u P) of
                        None \<Rightarrow> None
                      | Some (True, P2) \<Rightarrow> Some (True, pull_swap_agent env k sa v P2)
                      | Some (False, P2) \<Rightarrow> PIBT_loop2 n env ins K v ai sa (k + 1) P2)
                   else Some (True, pull_swap_agent env k sa v (reserve ai ?u P))) = Some (b, P')"
          by (simp add: Let_def)
        show thesis
        proof (cases "a = ai \<or> vnext (reserve ai ?u P) a \<noteq> None")
          case True
          with eq' have "b = True" "P' = pull_swap_agent env k sa v (reserve ai ?u P)"
            by (auto split: if_splits)
          with kK n1 n2 Some True show thesis using that(3) by auto
        next
          case False
          then have f1: "a \<noteq> ai" and f2: "vnext (reserve ai ?u P) a = None" by auto
          with eq' have eq'': "(case funcPIBT2 n env ins a (reserve ai ?u P) of
                        None \<Rightarrow> None
                      | Some (True, P2) \<Rightarrow> Some (True, pull_swap_agent env k sa v P2)
                      | Some (False, P2) \<Rightarrow> PIBT_loop2 n env ins K v ai sa (k + 1) P2)
                  = Some (b, P')"
            by (simp only: if_False if_True refl simp_thms)
          show thesis
          proof (cases "funcPIBT2 n env ins a (reserve ai ?u P)")
            case None
            with eq'' show thesis by simp
          next
            case (Some r)
            obtain b2 P2 where r: "r = (b2, P2)" by (cases r)
            show thesis
            proof (cases b2)
              case True
              with eq'' Some r have "b = True" "P' = pull_swap_agent env k sa v P2" by auto
              with kK n1 \<open>occupied_now P ! ?u = Some a\<close> na f1 f2 Some r True
              show thesis using that(4)[of a P2] by auto
            next
              case False
              with eq'' Some r have "PIBT_loop2 n env ins K v ai sa (k + 1) P2 = Some (b, P')"
                by auto
              with kK n1 \<open>occupied_now P ! ?u = Some a\<close> na f1 f2 Some r False
              show thesis using that(5)[of a P2] by auto
            qed
          qed
        qed
      qed
    qed
  qed
qed

text \<open>The state in which \<open>funcPIBT2\<close> enters its loop, given the agent to swap with.\<close>

definition loop_entry2 :: "'r Env \<Rightarrow> Instance \<Rightarrow> nat \<Rightarrow> nat \<Rightarrow> nat option \<Rightarrow> 'r Planner \<Rightarrow> 'r Planner" where
  "loop_entry2 env ins ai v sa P =
     (if sa \<noteq> None
      then reverse_candidates ai (length (neighbor_of ins v)) (set_candidates env ins ai v P)
      else set_candidates env ins ai v P)"

lemma funcPIBT2_cases:
  assumes "funcPIBT2 n env ins ai P = Some (b, P')"
  obtains m v sa where "n = Suc m" "vnow P ai = Some v"
    "if FLG_SWAP env
     then swap_possible_and_required env ins (set_candidates env ins ai v P) ai v = Some sa
     else sa = None"
    "PIBT_loop2 m env ins (length (neighbor_of ins v)) v ai sa 0 (loop_entry2 env ins ai v sa P)
       = Some (b, P')"
  using assms
  by (cases n) (auto simp: funcPIBT2.simps Let_def loop_entry2_def split: option.splits if_splits)

text \<open>Induction over an execution of \<open>funcPIBT2\<close>.\<close>

lemma PIBT2_induct:
  fixes Call :: "nat \<Rightarrow> nat \<Rightarrow> 'r Planner \<Rightarrow> bool \<Rightarrow> 'r Planner \<Rightarrow> bool"
    and Loop :: "nat \<Rightarrow> nat \<Rightarrow> nat \<Rightarrow> nat \<Rightarrow> nat option \<Rightarrow> nat \<Rightarrow> 'r Planner \<Rightarrow> bool \<Rightarrow> 'r Planner \<Rightarrow> bool"
  assumes enter: "\<And>n ai P b P' v sa.
      \<lbrakk>vnow P ai = Some v;
       if FLG_SWAP env
       then swap_possible_and_required env ins (set_candidates env ins ai v P) ai v = Some sa
       else sa = None;
       PIBT_loop2 n env ins (length (neighbor_of ins v)) v ai sa 0 (loop_entry2 env ins ai v sa P)
         = Some (b, P');
       Loop n (length (neighbor_of ins v)) v ai sa 0 (loop_entry2 env ins ai v sa P) b P'\<rbrakk>
      \<Longrightarrow> Call (Suc n) ai P b P'"
    and exhausted: "\<And>n K v ai sa k P. \<not> k < K + 1 \<Longrightarrow> Loop n K v ai sa k P False (reserve ai v P)"
    and skip: "\<And>n K v ai sa k P b P'.
      \<lbrakk>k < K + 1;
       occupied_next P ! (C_next P ! ai ! k) \<noteq> None
       \<or> (\<exists>a. occupied_now P ! (C_next P ! ai ! k) = Some a \<and> vnext P a = Some v);
       PIBT_loop2 n env ins K v ai sa (k + 1) P = Some (b, P');
       Loop n K v ai sa (k + 1) P b P'\<rbrakk>
      \<Longrightarrow> Loop n K v ai sa k P b P'"
    and free: "\<And>n K v ai sa k P.
      \<lbrakk>k < K + 1; occupied_next P ! (C_next P ! ai ! k) = None;
       \<forall>a. occupied_now P ! (C_next P ! ai ! k) = Some a \<longrightarrow> vnext P a \<noteq> Some v;
       occupied_now P ! (C_next P ! ai ! k) = None \<or> occupied_now P ! (C_next P ! ai ! k) = Some ai
       \<or> (\<exists>a. occupied_now P ! (C_next P ! ai ! k) = Some a
               \<and> vnext (reserve ai (C_next P ! ai ! k) P) a \<noteq> None)\<rbrakk>
      \<Longrightarrow> Loop n K v ai sa k P True (pull_swap_agent env k sa v (reserve ai (C_next P ! ai ! k) P))"
    and inherit: "\<And>n K v ai sa k P a P2.
      \<lbrakk>k < K + 1; occupied_next P ! (C_next P ! ai ! k) = None;
       occupied_now P ! (C_next P ! ai ! k) = Some a; vnext P a \<noteq> Some v;
       a \<noteq> ai; vnext (reserve ai (C_next P ! ai ! k) P) a = None;
       funcPIBT2 n env ins a (reserve ai (C_next P ! ai ! k) P) = Some (True, P2);
       Call n a (reserve ai (C_next P ! ai ! k) P) True P2\<rbrakk>
      \<Longrightarrow> Loop n K v ai sa k P True (pull_swap_agent env k sa v P2)"
    and retry: "\<And>n K v ai sa k P a P2 b P'.
      \<lbrakk>k < K + 1; occupied_next P ! (C_next P ! ai ! k) = None;
       occupied_now P ! (C_next P ! ai ! k) = Some a; vnext P a \<noteq> Some v;
       a \<noteq> ai; vnext (reserve ai (C_next P ! ai ! k) P) a = None;
       funcPIBT2 n env ins a (reserve ai (C_next P ! ai ! k) P) = Some (False, P2);
       Call n a (reserve ai (C_next P ! ai ! k) P) False P2;
       PIBT_loop2 n env ins K v ai sa (k + 1) P2 = Some (b, P');
       Loop n K v ai sa (k + 1) P2 b P'\<rbrakk>
      \<Longrightarrow> Loop n K v ai sa k P b P'"
  shows "funcPIBT2 n env ins ai P = Some (b, P') \<Longrightarrow> Call n ai P b P'"
    and "PIBT_loop2 n env ins K v ai sa k P = Some (b, P') \<Longrightarrow> Loop n K v ai sa k P b P'"
proof -
  have loop: "Loop n K v ai sa k P b P'"
    if calls: "\<And>a P b P'. funcPIBT2 n env ins a P = Some (b, P') \<Longrightarrow> Call n a P b P'"
      and run: "PIBT_loop2 n env ins K v ai sa k P = Some (b, P')"
    for n K v ai sa k P b P'
    using run
  proof (induction "K + 1 - k" arbitrary: k P)
    case 0
    from "0.prems" show ?case
    proof (cases rule: PIBT_loop2_cases)
      case exhausted
      then show ?thesis using assms(2) by simp
    qed (use 0 in simp_all)
  next
    case (Suc d)
    have step: "Loop n K v ai sa (k + 1) P2 b P'"
      if "PIBT_loop2 n env ins K v ai sa (k + 1) P2 = Some (b, P')" for P2
      using Suc.hyps(1)[of "k + 1" P2] Suc.hyps(2) that by simp
    from Suc.prems show ?case
    proof (cases rule: PIBT_loop2_cases)
      case exhausted
      then show ?thesis using assms(2) by simp
    next
      case skip
      from assms(3)[OF skip(1) skip(3) skip(2) step[OF skip(2)]] show ?thesis .
    next
      case free
      from assms(4)[OF free(1,2,3,6)] free(4,5) show ?thesis by simp
    next
      case (inherit a P2)
      from assms(5)[OF inherit(1-7) calls[OF inherit(7)]] inherit(8,9) show ?thesis by simp
    next
      case (retry a P2)
      from assms(6)[OF retry(1-7) calls[OF retry(7)] retry(8) step[OF retry(8)]]
      show ?thesis .
    qed
  qed
  have call: "funcPIBT2 n env ins ai P = Some (b, P') \<longrightarrow> Call n ai P b P'"
    for n ai P b P'
  proof (induction n arbitrary: ai P b P')
    case 0
    then show ?case by (simp add: funcPIBT2.simps)
  next
    case (Suc n)
    show ?case
    proof
      assume r: "funcPIBT2 (Suc n) env ins ai P = Some (b, P')"
      from r show "Call (Suc n) ai P b P'"
      proof (cases rule: funcPIBT2_cases)
        case (1 m v sa)
        then have m: "m = n" by simp
        from 1(4) have l: "PIBT_loop2 n env ins (length (neighbor_of ins v)) v ai sa 0
            (loop_entry2 env ins ai v sa P) = Some (b, P')" unfolding m .
        have "Loop n (length (neighbor_of ins v)) v ai sa 0 (loop_entry2 env ins ai v sa P) b P'"
          by (rule loop[OF _ l]) (use Suc.IH in blast)
        from assms(1)[OF 1(2) 1(3) l this] show ?thesis .
      qed
    qed
  qed
  show "funcPIBT2 n env ins ai P = Some (b, P') \<Longrightarrow> Call n ai P b P'"
    using call by blast
  show "PIBT_loop2 n env ins K v ai sa k P = Some (b, P') \<Longrightarrow> Loop n K v ai sa k P b P'"
    by (rule loop) (use call in blast)
qed

lemma reverse_candidates_simps [simp]:
  "Agents (reverse_candidates i K P) = Agents P"
  "occupied_now (reverse_candidates i K P) = occupied_now P"
  "occupied_next (reverse_candidates i K P) = occupied_next P"
  "length (C_next (reverse_candidates i K P)) = length (C_next P)"
  by (simp_all add: reverse_candidates_def)

lemma loop_entry2_simps [simp]:
  "Agents (loop_entry2 env ins ai v sa P) = Agents P"
  "occupied_now (loop_entry2 env ins ai v sa P) = occupied_now P"
  "occupied_next (loop_entry2 env ins ai v sa P) = occupied_next P"
  "length (C_next (loop_entry2 env ins ai v sa P)) = length (C_next P)"
  by (simp_all add: loop_entry2_def)

lemma pull_swap_agent_simps [simp]:
  "C_next (pull_swap_agent env k sa v P) = C_next P"
  "occupied_now (pull_swap_agent env k sa v P) = occupied_now P"
  "length (Agents (pull_swap_agent env k sa v P)) = length (Agents P)"
  "length (occupied_next (pull_swap_agent env k sa v P)) = length (occupied_next P)"
  "vnow (pull_swap_agent env k sa v P) b = vnow P b"
  by (simp_all add: pull_swap_agent_def split: option.splits)

lemma planner_frame_pull [simp]: "planner_frame P (pull_swap_agent env k sa v P)"
  by (simp add: planner_frame_def)

lemma planner_frame_loop_entry2 [simp]: "planner_frame P (loop_entry2 env ins ai v sa P)"
  by (simp add: planner_frame_def)

lemma PIBT1_frame:
  shows "funcPIBT1 n env ins ai aj P = Some (b, P') \<Longrightarrow> planner_frame P P'"
    and "PIBT_loop1 n env ins K v ai aj k P = Some (b, P') \<Longrightarrow> planner_frame P P'"
proof -
  let ?Call = "\<lambda>(n::nat) (ai::nat) (aj::nat option) P (b::bool) P'. planner_frame P P'"
  let ?Loop = "\<lambda>(n::nat) (K::nat) (v::nat) (ai::nat) (aj::nat option) (k::nat) P (b::bool) P'.
                 planner_frame P P'"
  show "funcPIBT1 n env ins ai aj P = Some (b, P') \<Longrightarrow> planner_frame P P'"
    by (rule PIBT1_induct(1)[where Call = ?Call and Loop = ?Loop])
       (auto intro: planner_frame_trans[OF planner_frame_set_candidates]
                    planner_frame_trans[OF planner_frame_reserve]
             elim: planner_frame_trans)
  show "PIBT_loop1 n env ins K v ai aj k P = Some (b, P') \<Longrightarrow> planner_frame P P'"
    by (rule PIBT1_induct(2)[where Call = ?Call and Loop = ?Loop])
       (auto intro: planner_frame_trans[OF planner_frame_set_candidates]
                    planner_frame_trans[OF planner_frame_reserve]
             elim: planner_frame_trans)
qed

lemma PIBT2_frame:
  shows "funcPIBT2 n env ins ai P = Some (b, P') \<Longrightarrow> planner_frame P P'"
    and "PIBT_loop2 n env ins K v ai sa k P = Some (b, P') \<Longrightarrow> planner_frame P P'"
proof -
  let ?Call = "\<lambda>(n::nat) (ai::nat) P (b::bool) P'. planner_frame P P'"
  let ?Loop = "\<lambda>(n::nat) (K::nat) (v::nat) (ai::nat) (sa::nat option) (k::nat) P (b::bool) P'.
                 planner_frame P P'"
  have t: "planner_frame P P1 \<Longrightarrow> planner_frame P (pull_swap_agent env k sa v P1)"
    for P P1 :: "'a Planner" and k sa v
    by (rule planner_frame_trans[OF _ planner_frame_pull])
  show "funcPIBT2 n env ins ai P = Some (b, P') \<Longrightarrow> planner_frame P P'"
    by (rule PIBT2_induct(1)[where Call = ?Call and Loop = ?Loop])
       (auto intro: planner_frame_trans[OF planner_frame_loop_entry2]
                    planner_frame_trans[OF planner_frame_reserve] t
             elim: planner_frame_trans)
  show "PIBT_loop2 n env ins K v ai sa k P = Some (b, P') \<Longrightarrow> planner_frame P P'"
    by (rule PIBT2_induct(2)[where Call = ?Call and Loop = ?Loop])
       (auto intro: planner_frame_trans[OF planner_frame_loop_entry2]
                    planner_frame_trans[OF planner_frame_reserve] t
             elim: planner_frame_trans)
qed

subsection \<open>Well-formed instances, environments and scratch tables\<close>

text \<open>
  The graph is undirected, its adjacency lists name vertices and, as on the four-connected
  grids that the rows \<open>std::array<Vertex*, 5>\<close> of \<open>C_next\<close> are made for, no vertex has more
  than four neighbours; a configuration places the \<open>N\<close> agents on pairwise different
  vertices.
\<close>

definition graph_ok :: "Instance \<Rightarrow> bool" where
  "graph_ok ins =
     (\<forall>v<length (ins_G ins).
        length (ins_G ins ! v) \<le> 4
        \<and> (\<forall>u\<in>set (ins_G ins ! v). u < length (ins_G ins) \<and> v \<in> set (ins_G ins ! u)))"

definition config_ok :: "Instance \<Rightarrow> Config \<Rightarrow> bool" where
  "config_ok ins C =
     (length C = ins_N ins \<and> (\<forall>i<length C. C ! i < length (ins_G ins)) \<and> distinct C)"

definition instance_ok :: "Instance \<Rightarrow> bool" where
  "instance_ok ins = (graph_ok ins \<and> config_ok ins (starts ins))"

text \<open>
  What is assumed of the library: \<open>std::sort\<close> and \<open>std::shuffle\<close> permute their range,
  and iterating over a \<open>neighbor\<close> container visits members of the container only.
\<close>

definition env_ok :: "'r Env \<Rightarrow> bool" where
  "env_ok env =
     ((\<forall>lt xs. mset (std_sort env lt xs) = mset xs)
      \<and> (\<forall>r xs. mset (fst (std_shuffle env r xs)) = mset xs)
      \<and> (\<forall>xs. set (neighbor_iteration env xs) \<subseteq> set xs))"

text \<open>
  The scratch tables during a call of \<open>get_new_config\<close> on the configuration \<open>C\<close>, after
  its first loop: every agent stands on its vertex of \<open>C\<close> and \<open>occupied_now\<close> is the
  inverse of \<open>C\<close>.
\<close>

definition planner_ok :: "Instance \<Rightarrow> Config \<Rightarrow> 'r Planner \<Rightarrow> bool" where
  "planner_ok ins C P =
     (length (Agents P) = ins_N ins
      \<and> length (C_next P) = ins_N ins
      \<and> length (occupied_now P) = length (ins_G ins)
      \<and> length (occupied_next P) = length (ins_G ins)
      \<and> (\<forall>a<ins_N ins. vnow P a = Some (C ! a) \<and> occupied_now P ! (C ! a) = Some a)
      \<and> (\<forall>v<length (ins_G ins). \<forall>a. occupied_now P ! v = Some a \<longrightarrow> a < ins_N ins \<and> C ! a = v))"

lemma planner_ok_frame:
  "planner_ok ins C P \<Longrightarrow> planner_frame P P' \<Longrightarrow> planner_ok ins C P'"
  by (simp add: planner_ok_def planner_frame_def)

text \<open>
  Between two states of the scratch tables: every agent outside \<open>X\<close> that had a next
  vertex still has the same one, and its row of candidates is untouched.
\<close>

definition keeps :: "nat set \<Rightarrow> 'r Planner \<Rightarrow> 'r Planner \<Rightarrow> bool" where
  "keeps X P P' =
     (\<forall>c. c \<notin> X \<and> vnext P c \<noteq> None \<longrightarrow> vnext P' c = vnext P c \<and> C_next P' ! c = C_next P ! c)"

lemma keeps_refl [simp]: "keeps X P P"
  by (simp add: keeps_def)

lemma keeps_trans: "keeps X P P1 \<Longrightarrow> keeps X P1 P2 \<Longrightarrow> keeps X P P2"
  by (auto simp: keeps_def)

lemma keeps_mono: "keeps X P P' \<Longrightarrow> X \<subseteq> Y \<Longrightarrow> keeps Y P P'"
  by (auto simp: keeps_def)

lemma keeps_reserve [simp]: "keeps {ai} P (reserve ai u P)"
  by (simp add: keeps_def)

lemma set_candidates_C_next:
  "c \<noteq> i \<Longrightarrow> C_next (set_candidates env ins i v P) ! c = C_next P ! c"
  by (simp add: set_candidates_def Let_def)

lemma keeps_set_candidates [simp]: "keeps {ai} P (set_candidates env ins ai v P)"
  by (simp add: keeps_def set_candidates_C_next)

text \<open>The first \<open>K + 1\<close> entries of \<open>C_next[ai]\<close> are the vertex \<open>v\<close> or neighbours of it.\<close>

definition cands_ok :: "Instance \<Rightarrow> nat \<Rightarrow> nat \<Rightarrow> 'r Planner \<Rightarrow> bool" where
  "cands_ok ins v ai P =
     (\<forall>k<length (neighbor_of ins v) + 1.
        C_next P ! ai ! k < length (ins_G ins)
        \<and> (C_next P ! ai ! k = v \<or> C_next P ! ai ! k \<in> set (neighbor_of ins v)))"

lemma cands_ok_set_candidates:
  assumes "env_ok env" "graph_ok ins" "v < length (ins_G ins)" "ai < length (C_next P)"
  shows "cands_ok ins v ai (set_candidates env ins ai v P)"
proof -
  let ?us = "neighbor_of ins v"
  let ?P1 = "fold (draw_tie_breaker env) ?us P"
  let ?lt = "\<lambda>v u. real (D_get env ai v) + tie_breakers ?P1 ! v
                          < real (D_get env ai u) + tie_breakers ?P1 ! u"
  let ?row = "std_sort env ?lt (?us @ [v])"
  from assms(1) have m: "mset ?row = mset (?us @ [v])" by (simp add: env_ok_def)
  then have "length ?row = length (?us @ [v])" by (rule mset_eq_length)
  then have len: "length ?row = length ?us + 1" by simp
  from m have st: "set ?row = set (?us @ [v])" by (rule mset_eq_setD)
  have row: "C_next (set_candidates env ins ai v P) ! ai = ?row @ drop (length ?us + 1) (C_next ?P1 ! ai)"
    using assms(4) by (simp add: set_candidates_def Let_def)
  have lt: "u < length (ins_G ins)" if "u \<in> set ?us" for u
    using assms(2,3) that unfolding graph_ok_def neighbor_of_def by blast
  show ?thesis
    unfolding cands_ok_def
  proof (intro allI impI)
    fix k assume k: "k < length ?us + 1"
    let ?u = "C_next (set_candidates env ins ai v P) ! ai ! k"
    from k len have "?u = ?row ! k"
      unfolding row by (simp add: nth_append)
    moreover from k len have "?row ! k \<in> set ?row" by simp
    ultimately have "?u \<in> set ?row" by simp
    then have "?u \<in> set ?us \<or> ?u = v" unfolding st by auto
    then show "?u < length (ins_G ins) \<and> (?u = v \<or> ?u \<in> set ?us)"
      using lt[of ?u] assms(3) by auto
  qed
qed

lemma cands_ok_reverse:
  assumes "cands_ok ins v ai P" "ai < length (C_next P)"
    "length (neighbor_of ins v) + 1 \<le> length (C_next P ! ai)"
  shows "cands_ok ins v ai (reverse_candidates ai (length (neighbor_of ins v)) P)"
  unfolding cands_ok_def
proof (intro allI impI)
  let ?K = "length (neighbor_of ins v)"
  fix k assume k: "k < ?K + 1"
  let ?xs = "C_next P ! ai"
  have l: "length (take (?K + 1) ?xs) = ?K + 1" using assms(3) by simp
  have "C_next (reverse_candidates ai ?K P) ! ai = rev (take (?K + 1) ?xs) @ drop (?K + 1) ?xs"
    using assms(2) by (simp add: reverse_candidates_def)
  then have "C_next (reverse_candidates ai ?K P) ! ai ! k = rev (take (?K + 1) ?xs) ! k"
    using k l by (simp add: nth_append)
  also have "\<dots> = take (?K + 1) ?xs ! (?K - k)"
    using k l by (simp add: rev_nth)
  also have "\<dots> = ?xs ! (?K - k)"
    by (rule nth_take) simp
  finally have e: "C_next (reverse_candidates ai ?K P) ! ai ! k = ?xs ! (?K - k)" .
  have "?K - k < ?K + 1" by simp
  with assms(1) have "?xs ! (?K - k) < length (ins_G ins)
        \<and> (?xs ! (?K - k) = v \<or> ?xs ! (?K - k) \<in> set (neighbor_of ins v))"
    unfolding cands_ok_def by blast
  then show "C_next (reverse_candidates ai ?K P) ! ai ! k < length (ins_G ins)
        \<and> (C_next (reverse_candidates ai ?K P) ! ai ! k = v
            \<or> C_next (reverse_candidates ai ?K P) ! ai ! k \<in> set (neighbor_of ins v))"
    unfolding e .
qed

text \<open>
  What holds when \<open>funcPIBT\<close> is called for agent \<open>ai\<close> and at the head of its loop, and
  what a call and a run of the loop leave behind.
\<close>

definition call_pre :: "Instance \<Rightarrow> Config \<Rightarrow> nat \<Rightarrow> 'r Planner \<Rightarrow> bool" where
  "call_pre ins C ai P = (planner_ok ins C P \<and> ai < ins_N ins \<and> vnext P ai = None)"

definition loop_pre :: "Instance \<Rightarrow> Config \<Rightarrow> nat \<Rightarrow> nat \<Rightarrow> nat \<Rightarrow> 'r Planner \<Rightarrow> bool" where
  "loop_pre ins C K v ai P =
     (planner_ok ins C P \<and> ai < ins_N ins \<and> v = C ! ai \<and> K = length (neighbor_of ins v)
      \<and> cands_ok ins v ai P)"

definition call_post :: "Config \<Rightarrow> nat \<Rightarrow> 'r Planner \<Rightarrow> bool \<Rightarrow> 'r Planner \<Rightarrow> bool" where
  "call_post C ai P b P' =
     (keeps {} P P' \<and> vnext P' ai \<noteq> None
      \<and> (\<not> b \<longrightarrow> vnext P' ai = Some (C ! ai) \<and> occupied_next P' ! (C ! ai) = Some ai))"

definition loop_post :: "Config \<Rightarrow> nat \<Rightarrow> 'r Planner \<Rightarrow> bool \<Rightarrow> 'r Planner \<Rightarrow> bool" where
  "loop_post C ai P b P' =
     (keeps {ai} P P' \<and> C_next P' ! ai = C_next P ! ai \<and> vnext P' ai \<noteq> None
      \<and> (\<not> b \<longrightarrow> vnext P' ai = Some (C ! ai) \<and> occupied_next P' ! (C ! ai) = Some ai))"

lemma enter_loop_pre:
  assumes "config_ok ins C" "graph_ok ins" "env_ok env"
    and "call_pre ins C ai P" "vnow P ai = Some v"
  shows "loop_pre ins C (length (neighbor_of ins v)) v ai (set_candidates env ins ai v P)"
proof -
  from assms(4) have ok: "planner_ok ins C P" and ai: "ai < ins_N ins"
    by (simp_all add: call_pre_def)
  from ok ai assms(5) have v: "v = C ! ai" by (simp add: planner_ok_def)
  from assms(1) ai v have vV: "v < length (ins_G ins)" by (simp add: config_ok_def)
  from ok ai have "ai < length (C_next P)" by (simp add: planner_ok_def)
  from cands_ok_set_candidates[OF assms(3,2) vV this]
  have "cands_ok ins v ai (set_candidates env ins ai v P)" .
  moreover have "planner_ok ins C (set_candidates env ins ai v P)"
    by (rule planner_ok_frame[OF ok]) simp
  ultimately show ?thesis using ai v by (simp add: loop_pre_def)
qed

lemma nested_call_pre:
  assumes "loop_pre ins C K v ai P" "k < K + 1"
    and "occupied_now P ! (C_next P ! ai ! k) = Some a"
    and "vnext (reserve ai (C_next P ! ai ! k) P) a = None"
  shows "call_pre ins C a (reserve ai (C_next P ! ai ! k) P)"
    and "a \<noteq> ai" and "a < ins_N ins" and "C ! a = C_next P ! ai ! k"
    and "C_next P ! ai ! k < length (ins_G ins)"
    and "vnext (reserve ai (C_next P ! ai ! k) P) ai = Some (C_next P ! ai ! k)"
proof -
  let ?u = "C_next P ! ai ! k"
  from assms(1) have ok: "planner_ok ins C P" and ai: "ai < ins_N ins"
    and K: "K = length (neighbor_of ins v)" and c: "cands_ok ins v ai P"
    unfolding loop_pre_def by blast+
  from c assms(2) K show uV: "?u < length (ins_G ins)" by (simp add: cands_ok_def)
  with ok assms(3) show a: "a < ins_N ins" and "C ! a = ?u" by (simp_all add: planner_ok_def)
  from ok ai have len: "ai < length (Agents P)" by (simp add: planner_ok_def)
  with assms(4) show "a \<noteq> ai" by auto
  from len show "vnext (reserve ai ?u P) ai = Some ?u" by simp
  have "planner_ok ins C (reserve ai ?u P)"
    by (rule planner_ok_frame[OF ok]) simp
  with a assms(4) show "call_pre ins C a (reserve ai ?u P)" by (simp add: call_pre_def)
qed

lemma loop_pre_after:
  assumes "loop_pre ins C K v ai P1" "planner_frame P1 P2" "C_next P2 ! ai = C_next P1 ! ai"
  shows "loop_pre ins C K v ai P2"
  using assms planner_ok_frame[OF _ assms(2)]
  by (auto simp: loop_pre_def cands_ok_def)

lemma loop_pre_reserve:
  "loop_pre ins C K v ai P \<Longrightarrow> loop_pre ins C K v ai (reserve ai u P)"
  by (rule loop_pre_after) simp_all

lemma retry_loop_pre:
  assumes "loop_pre ins C K v ai P" "k < K + 1"
    and "occupied_now P ! (C_next P ! ai ! k) = Some a"
    and "vnext (reserve ai (C_next P ! ai ! k) P) a = None"
    and "planner_frame (reserve ai (C_next P ! ai ! k) P) P2"
    and "call_post C a (reserve ai (C_next P ! ai ! k) P) b P2"
  shows "loop_pre ins C K v ai P2" and "C_next P2 ! ai = C_next P ! ai"
    and "vnext P2 ai = Some (C_next P ! ai ! k)"
proof -
  let ?P1 = "reserve ai (C_next P ! ai ! k) P"
  from nested_call_pre(6)[OF assms(1-4)] assms(6)
  have k: "vnext P2 ai = vnext ?P1 ai" "C_next P2 ! ai = C_next ?P1 ! ai"
    by (auto simp: call_post_def keeps_def)
  with nested_call_pre(6)[OF assms(1-4)]
  show "vnext P2 ai = Some (C_next P ! ai ! k)" by simp
  from k show c: "C_next P2 ! ai = C_next P ! ai" by simp
  show "loop_pre ins C K v ai P2"
    by (rule loop_pre_after[OF loop_pre_reserve[OF assms(1)] assms(5)]) (use k in simp)
qed

lemma PIBT1_post:
  assumes C: "config_ok ins C" and G: "graph_ok ins" and E: "env_ok env"
  shows "funcPIBT1 n env ins ai aj P = Some (b, P')
           \<Longrightarrow> call_pre ins C ai P \<longrightarrow> call_post C ai P b P'"
    and "PIBT_loop1 n env ins K v ai aj k P = Some (b, P')
           \<Longrightarrow> loop_pre ins C K v ai P \<longrightarrow> loop_post C ai P b P'"
proof -
  let ?Call = "\<lambda>(n::nat) ai (aj::nat option) P b P'.
     call_pre ins C ai P \<longrightarrow> call_post C ai P b P'"
  let ?Loop = "\<lambda>(n::nat) K v ai (aj::nat option) (k::nat) P b P'.
     loop_pre ins C K v ai P \<longrightarrow> loop_post C ai P b P'"
  have enter: "?Call (Suc n) ai aj P b P'"
    if "vnow P ai = Some v"
      "PIBT_loop1 n env ins (length (neighbor_of ins v)) v ai aj 0 (set_candidates env ins ai v P)
         = Some (b, P')"
      "?Loop n (length (neighbor_of ins v)) v ai aj 0 (set_candidates env ins ai v P) b P'"
    for n ai aj P b P' v
  proof
    assume pre: "call_pre ins C ai P"
    from that(3) enter_loop_pre[OF C G E pre that(1)]
    have l: "loop_post C ai (set_candidates env ins ai v P) b P'" by simp
    from pre have un: "vnext P ai = None" by (simp add: call_pre_def)
    have "keeps {} P P'"
      unfolding keeps_def
    proof (intro allI impI, elim conjE)
      fix c assume c: "vnext P c \<noteq> None"
      with un have "c \<noteq> ai" by auto
      with c l show "vnext P' c = vnext P c \<and> C_next P' ! c = C_next P ! c"
        by (auto simp: loop_post_def keeps_def set_candidates_C_next)
    qed
    with l show "call_post C ai P b P'" by (simp add: call_post_def loop_post_def)
  qed
  have exhausted: "?Loop n K v ai aj k P False (reserve ai v P)" for n K v ai aj k P
    using C by (auto simp: loop_pre_def loop_post_def planner_ok_def config_ok_def)
  have skip: "?Loop n K v ai aj k P b P'"
    if "k < K + 1"
       "occupied_next P ! (C_next P ! ai ! k) \<noteq> None
       \<or> (\<exists>j. aj = Some j \<and> Some (C_next P ! ai ! k) = vnow P j)
       \<or> (\<exists>a. occupied_now P ! (C_next P ! ai ! k) = Some a \<and> vnext P a = Some v)"
       "PIBT_loop1 n env ins K v ai aj (k + 1) P = Some (b, P')"
       "?Loop n K v ai aj (k + 1) P b P'"
    for n K v ai aj k P b P'
    using that(4) by simp
  have free: "?Loop n K v ai aj k P True (reserve ai (C_next P ! ai ! k) P)"
    if "k < K + 1" "occupied_next P ! (C_next P ! ai ! k) = None"
       "\<forall>a. occupied_now P ! (C_next P ! ai ! k) = Some a \<longrightarrow> vnext P a \<noteq> Some v"
       "occupied_now P ! (C_next P ! ai ! k) = None \<or> C_next P ! ai ! k = v
       \<or> (\<exists>a. occupied_now P ! (C_next P ! ai ! k) = Some a
               \<and> vnext (reserve ai (C_next P ! ai ! k) P) a \<noteq> None)"
    for n K v ai aj k P
    by (auto simp: loop_pre_def loop_post_def planner_ok_def)
  have inherit: "?Loop n K v ai aj k P True P'"
    if "k < K + 1" "occupied_next P ! (C_next P ! ai ! k) = None"
       "occupied_now P ! (C_next P ! ai ! k) = Some a" "vnext P a \<noteq> Some v"
       "C_next P ! ai ! k \<noteq> v" "vnext (reserve ai (C_next P ! ai ! k) P) a = None"
       "funcPIBT1 n env ins a (Some ai) (reserve ai (C_next P ! ai ! k) P) = Some (True, P')"
       "?Call n a (Some ai) (reserve ai (C_next P ! ai ! k) P) True P'"
    for n K v ai aj k P a P'
  proof
    assume pre: "loop_pre ins C K v ai P"
    let ?P1 = "reserve ai (C_next P ! ai ! k) P"
    note nc = nested_call_pre[OF pre that(1,3,6)]
    from that(8) nc(1) have cp: "call_post C a ?P1 True P'" by simp
    from retry_loop_pre[OF pre that(1,3,6) PIBT1_frame(1)[OF that(7)] cp]
    have r: "C_next P' ! ai = C_next P ! ai" "vnext P' ai = Some (C_next P ! ai ! k)" by simp_all
    have "keeps {ai} P P'"
      by (rule keeps_trans[OF keeps_reserve keeps_mono[of "{}"]]) (use cp in \<open>auto simp: call_post_def\<close>)
    with r show "loop_post C ai P True P'" by (simp add: loop_post_def)
  qed
  have retry: "?Loop n K v ai aj k P b P'"
    if "k < K + 1" "occupied_next P ! (C_next P ! ai ! k) = None"
       "occupied_now P ! (C_next P ! ai ! k) = Some a" "vnext P a \<noteq> Some v"
       "C_next P ! ai ! k \<noteq> v" "vnext (reserve ai (C_next P ! ai ! k) P) a = None"
       "funcPIBT1 n env ins a (Some ai) (reserve ai (C_next P ! ai ! k) P) = Some (False, P2)"
       "?Call n a (Some ai) (reserve ai (C_next P ! ai ! k) P) False P2"
       "PIBT_loop1 n env ins K v ai aj (k + 1) P2 = Some (b, P')"
       "?Loop n K v ai aj (k + 1) P2 b P'"
    for n K v ai aj k P a P2 b P'
  proof
    assume pre: "loop_pre ins C K v ai P"
    let ?P1 = "reserve ai (C_next P ! ai ! k) P"
    note nc = nested_call_pre[OF pre that(1,3,6)]
    from that(8) nc(1) have cp: "call_post C a ?P1 False P2" by simp
    note r = retry_loop_pre[OF pre that(1,3,6) PIBT1_frame(1)[OF that(7)] cp]
    from that(10) r(1) have lp: "loop_post C ai P2 b P'" by simp
    have "keeps {ai} P P2"
      by (rule keeps_trans[OF keeps_reserve keeps_mono[of "{}"]]) (use cp in \<open>auto simp: call_post_def\<close>)
    with lp have "keeps {ai} P P'" by (auto simp: loop_post_def intro: keeps_trans)
    with lp r(2) show "loop_post C ai P b P'" by (simp add: loop_post_def)
  qed
  show "funcPIBT1 n env ins ai aj P = Some (b, P')
           \<Longrightarrow> call_pre ins C ai P \<longrightarrow> call_post C ai P b P'"
    by (rule PIBT1_induct(1)[where Call = ?Call and Loop = ?Loop,
          OF enter exhausted skip free inherit retry])
  show "PIBT_loop1 n env ins K v ai aj k P = Some (b, P')
           \<Longrightarrow> loop_pre ins C K v ai P \<longrightarrow> loop_post C ai P b P'"
    by (rule PIBT1_induct(2)[where Call = ?Call and Loop = ?Loop,
          OF enter exhausted skip free inherit retry])
qed

lemma keeps_pull [simp]: "keeps X P (pull_swap_agent env k sa v P)"
  by (auto simp: keeps_def pull_swap_agent_def split: option.splits)

lemma length_set_candidates_row:
  assumes "env_ok env" "ai < length (C_next P)"
  shows "length (neighbor_of ins v) + 1 \<le> length (C_next (set_candidates env ins ai v P) ! ai)"
proof -
  let ?us = "neighbor_of ins v"
  let ?P1 = "fold (draw_tie_breaker env) ?us P"
  let ?lt = "\<lambda>v u. real (D_get env ai v) + tie_breakers ?P1 ! v
                          < real (D_get env ai u) + tie_breakers ?P1 ! u"
  let ?row = "std_sort env ?lt (?us @ [v])"
  from assms(1) have m: "mset ?row = mset (?us @ [v])" by (simp add: env_ok_def)
  then have "length ?row = length (?us @ [v])" by (rule mset_eq_length)
  then have len: "length ?row = length ?us + 1" by simp
  have row: "C_next (set_candidates env ins ai v P) ! ai = ?row @ drop (length ?us + 1) (C_next ?P1 ! ai)"
    using assms(2) by (simp add: set_candidates_def Let_def)
  show ?thesis unfolding row using len by simp
qed

lemma enter_loop_pre2:
  assumes "config_ok ins C" "graph_ok ins" "env_ok env"
    and "call_pre ins C ai P" "vnow P ai = Some v"
  shows "loop_pre ins C (length (neighbor_of ins v)) v ai (loop_entry2 env ins ai v sa P)"
proof (cases "sa = None")
  case True
  with enter_loop_pre[OF assms] show ?thesis by (simp add: loop_entry2_def)
next
  case False
  let ?P0 = "set_candidates env ins ai v P"
  let ?K = "length (neighbor_of ins v)"
  note l = enter_loop_pre[OF assms]
  from assms(4) have "ai < length (C_next P)" by (simp add: call_pre_def planner_ok_def)
  from length_set_candidates_row[OF assms(3) this, of ins v]
  have len: "?K + 1 \<le> length (C_next ?P0 ! ai)" .
  from l have c: "cands_ok ins v ai ?P0"
    and ok: "planner_ok ins C ?P0" and rest: "ai < ins_N ins" "v = C ! ai"
    unfolding loop_pre_def by blast+
  from ok rest have ai: "ai < length (C_next ?P0)" by (simp add: planner_ok_def)
  have "planner_ok ins C (reverse_candidates ai ?K ?P0)"
    by (rule planner_ok_frame[OF ok]) (simp add: planner_frame_def)
  with cands_ok_reverse[OF c ai len] rest False show ?thesis
    by (simp add: loop_pre_def loop_entry2_def)
qed

lemma loop_entry2_C_next:
  "c \<noteq> ai \<Longrightarrow> C_next (loop_entry2 env ins ai v sa P) ! c = C_next P ! c"
  by (simp add: loop_entry2_def reverse_candidates_def set_candidates_C_next)

lemma PIBT2_post:
  assumes C: "config_ok ins C" and G: "graph_ok ins" and E: "env_ok env"
  shows "funcPIBT2 n env ins ai P = Some (b, P')
           \<Longrightarrow> call_pre ins C ai P \<longrightarrow> call_post C ai P b P'"
    and "PIBT_loop2 n env ins K v ai sa k P = Some (b, P')
           \<Longrightarrow> loop_pre ins C K v ai P \<longrightarrow> loop_post C ai P b P'"
proof -
  let ?Call = "\<lambda>(n::nat) ai P b P'. call_pre ins C ai P \<longrightarrow> call_post C ai P b P'"
  let ?Loop = "\<lambda>(n::nat) K v ai (sa::nat option) (k::nat) P b P'.
     loop_pre ins C K v ai P \<longrightarrow> loop_post C ai P b P'"
  have enter: "?Call (Suc n) ai P b P'"
    if "vnow P ai = Some v"
      "if FLG_SWAP env
       then swap_possible_and_required env ins (set_candidates env ins ai v P) ai v = Some sa
       else sa = None"
      "PIBT_loop2 n env ins (length (neighbor_of ins v)) v ai sa 0 (loop_entry2 env ins ai v sa P)
         = Some (b, P')"
      "?Loop n (length (neighbor_of ins v)) v ai sa 0 (loop_entry2 env ins ai v sa P) b P'"
    for n ai P b P' v sa
  proof
    assume pre: "call_pre ins C ai P"
    from that(4) enter_loop_pre2[OF C G E pre that(1)]
    have l: "loop_post C ai (loop_entry2 env ins ai v sa P) b P'" by simp
    from pre have un: "vnext P ai = None" by (simp add: call_pre_def)
    have "keeps {} P P'"
      unfolding keeps_def
    proof (intro allI impI, elim conjE)
      fix c assume c: "vnext P c \<noteq> None"
      with un have "c \<noteq> ai" by auto
      with c l show "vnext P' c = vnext P c \<and> C_next P' ! c = C_next P ! c"
        by (auto simp: loop_post_def keeps_def loop_entry2_C_next)
    qed
    with l show "call_post C ai P b P'" by (simp add: call_post_def loop_post_def)
  qed
  have exhausted: "?Loop n K v ai sa k P False (reserve ai v P)" for n K v ai sa k P
    using C by (auto simp: loop_pre_def loop_post_def planner_ok_def config_ok_def)
  have skip: "?Loop n K v ai sa k P b P'"
    if "k < K + 1"
       "occupied_next P ! (C_next P ! ai ! k) \<noteq> None
       \<or> (\<exists>a. occupied_now P ! (C_next P ! ai ! k) = Some a \<and> vnext P a = Some v)"
       "PIBT_loop2 n env ins K v ai sa (k + 1) P = Some (b, P')"
       "?Loop n K v ai sa (k + 1) P b P'"
    for n K v ai sa k P b P'
    using that(4) by simp
  have pulled: "loop_post C ai P True (pull_swap_agent env k sa v P1)"
    if "loop_post C ai P True P1" for ai P k sa v P1
  proof -
    from that have "keeps {ai} P (pull_swap_agent env k sa v P1)"
      by (auto simp: loop_post_def intro: keeps_trans)
    moreover from that have "vnext (pull_swap_agent env k sa v P1) ai \<noteq> None"
      using keeps_pull[of "{}" P1 env k sa v] by (auto simp: loop_post_def keeps_def)
    ultimately show ?thesis using that by (simp add: loop_post_def)
  qed
  have free: "?Loop n K v ai sa k P True (pull_swap_agent env k sa v (reserve ai (C_next P ! ai ! k) P))"
    if "k < K + 1" "occupied_next P ! (C_next P ! ai ! k) = None"
       "\<forall>a. occupied_now P ! (C_next P ! ai ! k) = Some a \<longrightarrow> vnext P a \<noteq> Some v"
       "occupied_now P ! (C_next P ! ai ! k) = None \<or> occupied_now P ! (C_next P ! ai ! k) = Some ai
       \<or> (\<exists>a. occupied_now P ! (C_next P ! ai ! k) = Some a
               \<and> vnext (reserve ai (C_next P ! ai ! k) P) a \<noteq> None)"
    for n K v ai sa k P
  proof
    assume pre: "loop_pre ins C K v ai P"
    then have "loop_post C ai P True (reserve ai (C_next P ! ai ! k) P)"
      by (auto simp: loop_pre_def loop_post_def planner_ok_def)
    then show "loop_post C ai P True (pull_swap_agent env k sa v (reserve ai (C_next P ! ai ! k) P))"
      by (rule pulled)
  qed
  have inherit: "?Loop n K v ai sa k P True (pull_swap_agent env k sa v P2)"
    if "k < K + 1" "occupied_next P ! (C_next P ! ai ! k) = None"
       "occupied_now P ! (C_next P ! ai ! k) = Some a" "vnext P a \<noteq> Some v"
       "a \<noteq> ai" "vnext (reserve ai (C_next P ! ai ! k) P) a = None"
       "funcPIBT2 n env ins a (reserve ai (C_next P ! ai ! k) P) = Some (True, P2)"
       "?Call n a (reserve ai (C_next P ! ai ! k) P) True P2"
    for n K v ai sa k P a P2
  proof
    assume pre: "loop_pre ins C K v ai P"
    let ?P1 = "reserve ai (C_next P ! ai ! k) P"
    note nc = nested_call_pre[OF pre that(1,3,6)]
    from that(8) nc(1) have cp: "call_post C a ?P1 True P2" by simp
    from retry_loop_pre[OF pre that(1,3,6) PIBT2_frame(1)[OF that(7)] cp]
    have r: "C_next P2 ! ai = C_next P ! ai" "vnext P2 ai = Some (C_next P ! ai ! k)" by simp_all
    have "keeps {ai} P P2"
      by (rule keeps_trans[OF keeps_reserve keeps_mono[of "{}"]]) (use cp in \<open>auto simp: call_post_def\<close>)
    with r have "loop_post C ai P True P2" by (simp add: loop_post_def)
    then show "loop_post C ai P True (pull_swap_agent env k sa v P2)" by (rule pulled)
  qed
  have retry: "?Loop n K v ai sa k P b P'"
    if "k < K + 1" "occupied_next P ! (C_next P ! ai ! k) = None"
       "occupied_now P ! (C_next P ! ai ! k) = Some a" "vnext P a \<noteq> Some v"
       "a \<noteq> ai" "vnext (reserve ai (C_next P ! ai ! k) P) a = None"
       "funcPIBT2 n env ins a (reserve ai (C_next P ! ai ! k) P) = Some (False, P2)"
       "?Call n a (reserve ai (C_next P ! ai ! k) P) False P2"
       "PIBT_loop2 n env ins K v ai sa (k + 1) P2 = Some (b, P')"
       "?Loop n K v ai sa (k + 1) P2 b P'"
    for n K v ai sa k P a P2 b P'
  proof
    assume pre: "loop_pre ins C K v ai P"
    let ?P1 = "reserve ai (C_next P ! ai ! k) P"
    note nc = nested_call_pre[OF pre that(1,3,6)]
    from that(8) nc(1) have cp: "call_post C a ?P1 False P2" by simp
    note r = retry_loop_pre[OF pre that(1,3,6) PIBT2_frame(1)[OF that(7)] cp]
    from that(10) r(1) have lp: "loop_post C ai P2 b P'" by simp
    have "keeps {ai} P P2"
      by (rule keeps_trans[OF keeps_reserve keeps_mono[of "{}"]]) (use cp in \<open>auto simp: call_post_def\<close>)
    with lp have "keeps {ai} P P'" by (auto simp: loop_post_def intro: keeps_trans)
    with lp r(2) show "loop_post C ai P b P'" by (simp add: loop_post_def)
  qed
  show "funcPIBT2 n env ins ai P = Some (b, P')
           \<Longrightarrow> call_pre ins C ai P \<longrightarrow> call_post C ai P b P'"
    by (rule PIBT2_induct(1)[where Call = ?Call and Loop = ?Loop,
          OF enter exhausted skip free inherit retry])
  show "PIBT_loop2 n env ins K v ai sa k P = Some (b, P')
           \<Longrightarrow> loop_pre ins C K v ai P \<longrightarrow> loop_post C ai P b P'"
    by (rule PIBT2_induct(2)[where Call = ?Call and Loop = ?Loop,
          OF enter exhausted skip free inherit retry])
qed

subsection \<open>Reservations stay sound\<close>

text \<open>
  Agent \<open>a\<close> holds a live reservation of \<open>u\<close> when its next vertex is \<open>u\<close> and
  \<open>occupied_next\<close> names it there. The live reservations are sound when each of them is a
  move along an edge (or a stay) and no two of them exchange the vertices of two agents.
\<close>

definition live :: "'r Planner \<Rightarrow> nat \<Rightarrow> nat \<Rightarrow> bool" where
  "live P a u = (vnext P a = Some u \<and> occupied_next P ! u = Some a)"

definition good :: "Instance \<Rightarrow> Config \<Rightarrow> 'r Planner \<Rightarrow> bool" where
  "good ins C P =
     (\<forall>a<ins_N ins. \<forall>u. live P a u \<longrightarrow>
        u < length (ins_G ins)
        \<and> (u = C ! a \<or> u \<in> set (neighbor_of ins (C ! a)))
        \<and> (\<forall>b<ins_N ins. b \<noteq> a \<and> u = C ! b \<longrightarrow> \<not> live P b (C ! a)))"

text \<open>
  Reserving \<open>u\<close> for \<open>ai\<close> keeps the reservations sound when \<open>u\<close> is a legal move for
  \<open>ai\<close> and the agent standing on \<open>u\<close> is not heading for the vertex of \<open>ai\<close>.
\<close>

lemma good_reserve:
  assumes g: "good ins C P" and ok: "planner_ok ins C P" and C: "config_ok ins C"
    and ai: "ai < ins_N ins" and u: "u < length (ins_G ins)"
    and mv: "u = C ! ai \<or> u \<in> set (neighbor_of ins (C ! ai))"
    and sw: "\<forall>a. occupied_now P ! u = Some a \<longrightarrow> a = ai \<or> vnext P a \<noteq> Some (C ! ai)"
  shows "good ins C (reserve ai u P)"
  unfolding good_def
proof (intro allI impI)
  let ?P' = "reserve ai u P"
  fix a w assume a: "a < ins_N ins" and l: "live ?P' a w"
  from ok ai have lenA: "ai < length (Agents P)" and lenO: "length (occupied_next P) = length (ins_G ins)"
    by (simp_all add: planner_ok_def)
  have live_old: "live P c x" if "live ?P' c x" "c \<noteq> ai" for c x
    using that lenA lenO u by (auto simp: live_def split: if_splits)
  have live_ai: "x = u" if "live ?P' ai x" for x
    using that lenA by (auto simp: live_def)
  show "w < length (ins_G ins)
        \<and> (w = C ! a \<or> w \<in> set (neighbor_of ins (C ! a)))
        \<and> (\<forall>b<ins_N ins. b \<noteq> a \<and> w = C ! b \<longrightarrow> \<not> live ?P' b (C ! a))"
  proof (cases "a = ai")
    case True
    with l have w: "w = u" using live_ai by simp
    have "\<not> live ?P' b (C ! ai)" if b: "b < ins_N ins" "b \<noteq> ai" "u = C ! b" for b
    proof
      assume "live ?P' b (C ! ai)"
      then have lb: "live P b (C ! ai)" using live_old b(2) by simp
      from ok b(1,3) have "occupied_now P ! u = Some b" by (simp add: planner_ok_def)
      with sw b(2) have "vnext P b \<noteq> Some (C ! ai)" by simp
      with lb show False by (simp add: live_def)
    qed
    with True w u mv show ?thesis by auto
  next
    case False
    with l have lo: "live P a w" using live_old by simp
    with g a have gw: "w < length (ins_G ins)" "w = C ! a \<or> w \<in> set (neighbor_of ins (C ! a))"
      and gs: "\<forall>b<ins_N ins. b \<noteq> a \<and> w = C ! b \<longrightarrow> \<not> live P b (C ! a)"
      unfolding good_def by blast+
    have "\<not> live ?P' b (C ! a)" if b: "b < ins_N ins" "b \<noteq> a" "w = C ! b" for b
    proof (cases "b = ai")
      case bai: True
      show ?thesis
      proof
        assume "live ?P' b (C ! a)"
        with bai have ua: "u = C ! a" using live_ai[of "C ! a"] by auto
        with ok a have on: "occupied_now P ! u = Some a" by (simp add: planner_ok_def)
        from lo b(3) bai have "vnext P a = Some (C ! ai)" by (simp add: live_def)
        with sw on False show False by simp
      qed
    next
      case False
      with gs b live_old show ?thesis by blast
    qed
    with gw show ?thesis by blast
  qed
qed

lemma good_cong:
  "Agents P' = Agents P \<Longrightarrow> occupied_next P' = occupied_next P \<Longrightarrow> good ins C P' = good ins C P"
  by (simp add: good_def live_def)

lemma good_stay:
  assumes "good ins C P" "planner_ok ins C P" "config_ok ins C" "ai < ins_N ins"
  shows "good ins C (reserve ai (C ! ai) P)"
proof (rule good_reserve[OF assms])
  from assms(3,4) show "C ! ai < length (ins_G ins)" by (simp add: config_ok_def)
  show "C ! ai = C ! ai \<or> C ! ai \<in> set (neighbor_of ins (C ! ai))" by simp
  from assms(2,3,4) show "\<forall>a. occupied_now P ! (C ! ai) = Some a \<longrightarrow> a = ai \<or> vnext P a \<noteq> Some (C ! ai)"
    by (simp add: planner_ok_def)
qed

lemma good_candidate:
  assumes "good ins C P" "config_ok ins C" "loop_pre ins C K v ai P" "k < K + 1"
    and "\<forall>a. occupied_now P ! (C_next P ! ai ! k) = Some a \<longrightarrow> vnext P a \<noteq> Some v"
  shows "good ins C (reserve ai (C_next P ! ai ! k) P)"
proof -
  from assms(3) have ok: "planner_ok ins C P" and ai: "ai < ins_N ins" and v: "v = C ! ai"
    and K: "K = length (neighbor_of ins v)" and c: "cands_ok ins v ai P"
    unfolding loop_pre_def by blast+
  from c assms(4) K have u: "C_next P ! ai ! k < length (ins_G ins)"
    "C_next P ! ai ! k = v \<or> C_next P ! ai ! k \<in> set (neighbor_of ins v)"
    by (simp_all add: cands_ok_def)
  show ?thesis
    by (rule good_reserve[OF assms(1) ok assms(2) ai u(1)]) (use u(2) v assms(5) in auto)
qed

lemma PIBT1_good:
  assumes C: "config_ok ins C" and G: "graph_ok ins" and E: "env_ok env"
  shows "funcPIBT1 n env ins ai aj P = Some (b, P')
           \<Longrightarrow> call_pre ins C ai P \<and> good ins C P \<longrightarrow> good ins C P'"
    and "PIBT_loop1 n env ins K v ai aj k P = Some (b, P')
           \<Longrightarrow> loop_pre ins C K v ai P \<and> good ins C P \<longrightarrow> good ins C P'"
proof -
  let ?Call = "\<lambda>(n::nat) ai (aj::nat option) P (b::bool) P'.
     call_pre ins C ai P \<and> good ins C P \<longrightarrow> good ins C P'"
  let ?Loop = "\<lambda>(n::nat) K v ai (aj::nat option) (k::nat) P (b::bool) P'.
     loop_pre ins C K v ai P \<and> good ins C P \<longrightarrow> good ins C P'"
  have enter: "?Call (Suc n) ai aj P b P'"
    if "vnow P ai = Some v"
      "PIBT_loop1 n env ins (length (neighbor_of ins v)) v ai aj 0 (set_candidates env ins ai v P)
         = Some (b, P')"
      "?Loop n (length (neighbor_of ins v)) v ai aj 0 (set_candidates env ins ai v P) b P'"
    for n ai aj P b P' v
    using that(3) enter_loop_pre[OF C G E _ that(1)]
      good_cong[of "set_candidates env ins ai v P" P ins C]
    by simp
  have exhausted: "?Loop n K v ai aj k P False (reserve ai v P)" for n K v ai aj k P
    using good_stay[OF _ _ C] by (auto simp: loop_pre_def)
  have skip: "?Loop n K v ai aj k P b P'"
    if "k < K + 1"
       "occupied_next P ! (C_next P ! ai ! k) \<noteq> None
       \<or> (\<exists>j. aj = Some j \<and> Some (C_next P ! ai ! k) = vnow P j)
       \<or> (\<exists>a. occupied_now P ! (C_next P ! ai ! k) = Some a \<and> vnext P a = Some v)"
       "PIBT_loop1 n env ins K v ai aj (k + 1) P = Some (b, P')"
       "?Loop n K v ai aj (k + 1) P b P'"
    for n K v ai aj k P b P'
    using that(4) by simp
  have free: "?Loop n K v ai aj k P True (reserve ai (C_next P ! ai ! k) P)"
    if "k < K + 1" "occupied_next P ! (C_next P ! ai ! k) = None"
       "\<forall>a. occupied_now P ! (C_next P ! ai ! k) = Some a \<longrightarrow> vnext P a \<noteq> Some v"
       "occupied_now P ! (C_next P ! ai ! k) = None \<or> C_next P ! ai ! k = v
       \<or> (\<exists>a. occupied_now P ! (C_next P ! ai ! k) = Some a
               \<and> vnext (reserve ai (C_next P ! ai ! k) P) a \<noteq> None)"
    for n K v ai aj k P
    using good_candidate[OF _ C _ that(1,3)] by blast
  have inherit: "?Loop n K v ai aj k P True P'"
    if "k < K + 1" "occupied_next P ! (C_next P ! ai ! k) = None"
       "occupied_now P ! (C_next P ! ai ! k) = Some a" "vnext P a \<noteq> Some v"
       "C_next P ! ai ! k \<noteq> v" "vnext (reserve ai (C_next P ! ai ! k) P) a = None"
       "funcPIBT1 n env ins a (Some ai) (reserve ai (C_next P ! ai ! k) P) = Some (True, P')"
       "?Call n a (Some ai) (reserve ai (C_next P ! ai ! k) P) True P'"
    for n K v ai aj k P a P'
  proof (intro impI, elim conjE)
    assume pre: "loop_pre ins C K v ai P" and g: "good ins C P"
    from that(3,4) have "\<forall>a. occupied_now P ! (C_next P ! ai ! k) = Some a \<longrightarrow> vnext P a \<noteq> Some v"
      by simp
    from good_candidate[OF g C pre that(1) this] nested_call_pre(1)[OF pre that(1,3,6)] that(8)
    show "good ins C P'" by simp
  qed
  have retry: "?Loop n K v ai aj k P b P'"
    if "k < K + 1" "occupied_next P ! (C_next P ! ai ! k) = None"
       "occupied_now P ! (C_next P ! ai ! k) = Some a" "vnext P a \<noteq> Some v"
       "C_next P ! ai ! k \<noteq> v" "vnext (reserve ai (C_next P ! ai ! k) P) a = None"
       "funcPIBT1 n env ins a (Some ai) (reserve ai (C_next P ! ai ! k) P) = Some (False, P2)"
       "?Call n a (Some ai) (reserve ai (C_next P ! ai ! k) P) False P2"
       "PIBT_loop1 n env ins K v ai aj (k + 1) P2 = Some (b, P')"
       "?Loop n K v ai aj (k + 1) P2 b P'"
    for n K v ai aj k P a P2 b P'
  proof (intro impI, elim conjE)
    assume pre: "loop_pre ins C K v ai P" and g: "good ins C P"
    let ?P1 = "reserve ai (C_next P ! ai ! k) P"
    from that(3,4) have "\<forall>a. occupied_now P ! (C_next P ! ai ! k) = Some a \<longrightarrow> vnext P a \<noteq> Some v"
      by simp
    note g1 = good_candidate[OF g C pre that(1) this]
    note nc = nested_call_pre(1)[OF pre that(1,3,6)]
    from g1 nc that(8) have g2: "good ins C P2" by simp
    from PIBT1_post(1)[OF C G E that(7)] nc have cp: "call_post C a ?P1 False P2" by simp
    from retry_loop_pre(1)[OF pre that(1,3,6) PIBT1_frame(1)[OF that(7)] cp] g2 that(10)
    show "good ins C P'" by simp
  qed
  show "funcPIBT1 n env ins ai aj P = Some (b, P')
           \<Longrightarrow> call_pre ins C ai P \<and> good ins C P \<longrightarrow> good ins C P'"
    by (rule PIBT1_induct(1)[where Call = ?Call and Loop = ?Loop,
          OF enter exhausted skip free inherit retry])
  show "PIBT_loop1 n env ins K v ai aj k P = Some (b, P')
           \<Longrightarrow> loop_pre ins C K v ai P \<and> good ins C P \<longrightarrow> good ins C P'"
    by (rule PIBT1_induct(2)[where Call = ?Call and Loop = ?Loop,
          OF enter exhausted skip free inherit retry])
qed

subsection \<open>The two tables of reservations agree\<close>

text \<open>
  \<open>cons ins X P\<close>: every agent outside \<open>X\<close> that has a next vertex holds the slot of that
  vertex in \<open>occupied_next\<close>. \<open>binv ins P\<close>: every slot of \<open>occupied_next\<close> that names an agent
  is the next vertex of that agent. \<open>unheld ins a P\<close>: no slot names agent \<open>a\<close>.
\<close>

definition cons :: "Instance \<Rightarrow> nat set \<Rightarrow> 'r Planner \<Rightarrow> bool" where
  "cons ins X P =
     (\<forall>a<ins_N ins. a \<notin> X \<longrightarrow>
        (\<forall>u. vnext P a = Some u \<longrightarrow> u < length (ins_G ins) \<and> occupied_next P ! u = Some a))"

definition binv :: "Instance \<Rightarrow> 'r Planner \<Rightarrow> bool" where
  "binv ins P =
     (\<forall>u<length (ins_G ins). \<forall>a. occupied_next P ! u = Some a \<longrightarrow> a < ins_N ins \<and> vnext P a = Some u)"

definition unheld :: "Instance \<Rightarrow> nat \<Rightarrow> 'r Planner \<Rightarrow> bool" where
  "unheld ins a P = (\<forall>u<length (ins_G ins). occupied_next P ! u \<noteq> Some a)"

text \<open>
  Every slot of \<open>occupied_next\<close> that differs between \<open>P\<close> and \<open>P'\<close> is the current vertex
  of an agent that had no next vertex in \<open>P\<close>, or of an agent of \<open>X\<close>.
\<close>

definition fail_frame :: "Instance \<Rightarrow> Config \<Rightarrow> nat set \<Rightarrow> 'r Planner \<Rightarrow> 'r Planner \<Rightarrow> bool" where
  "fail_frame ins C X P P' =
     (\<forall>w<length (ins_G ins). occupied_next P' ! w \<noteq> occupied_next P ! w \<longrightarrow>
        (\<exists>a<ins_N ins. C ! a = w \<and> (vnext P a = None \<or> a \<in> X)))"

lemma cons_cong:
  "Agents P' = Agents P \<Longrightarrow> occupied_next P' = occupied_next P \<Longrightarrow> cons ins X P' = cons ins X P"
  by (simp add: cons_def)

lemma binv_cong:
  "Agents P' = Agents P \<Longrightarrow> occupied_next P' = occupied_next P \<Longrightarrow> binv ins P' = binv ins P"
  by (simp add: binv_def)

lemma unheld_cong:
  "occupied_next P' = occupied_next P \<Longrightarrow> unheld ins a P' = unheld ins a P"
  by (simp add: unheld_def)

lemma cons_mono: "cons ins X P \<Longrightarrow> X \<subseteq> Y \<Longrightarrow> cons ins Y P"
  by (auto simp: cons_def)

lemma binv_unheld: "binv ins P \<Longrightarrow> vnext P a = None \<Longrightarrow> unheld ins a P"
  by (auto simp: binv_def unheld_def)

lemma tables_reserve:
  assumes "planner_ok ins C P" "binv ins P" "cons ins X P" "a < ins_N ins"
    "u < length (ins_G ins)" "occupied_next P ! u = None" "unheld ins a P"
  shows "binv ins (reserve a u P)" and "cons ins (X - {a}) (reserve a u P)"
proof -
  from assms(1) have l: "length (Agents P) = ins_N ins" "length (occupied_next P) = length (ins_G ins)"
    by (simp_all add: planner_ok_def)
  show "binv ins (reserve a u P)"
    unfolding binv_def
  proof (intro allI impI)
    fix w b assume w: "w < length (ins_G ins)" and s: "occupied_next (reserve a u P) ! w = Some b"
    show "b < ins_N ins \<and> vnext (reserve a u P) b = Some w"
    proof (cases "w = u")
      case True
      with s l assms(4,5) show ?thesis by simp
    next
      case False
      with s have s': "occupied_next P ! w = Some b" by simp
      with assms(7) w have "b \<noteq> a" by (auto simp: unheld_def)
      with s' assms(2) w show ?thesis by (simp add: binv_def)
    qed
  qed
  show "cons ins (X - {a}) (reserve a u P)"
    unfolding cons_def
  proof (intro allI impI)
    fix b w assume b: "b < ins_N ins" "b \<notin> X - {a}" and n: "vnext (reserve a u P) b = Some w"
    show "w < length (ins_G ins) \<and> occupied_next (reserve a u P) ! w = Some b"
    proof (cases "b = a")
      case True
      with n l assms(4,5) show ?thesis by simp
    next
      case False
      with n b have "vnext P b = Some w" "b \<notin> X" by simp_all
      with assms(3) b(1) have "w < length (ins_G ins)" "occupied_next P ! w = Some b"
        by (simp_all add: cons_def)
      moreover with assms(6) have "w \<noteq> u" by auto
      ultimately show ?thesis by simp
    qed
  qed
qed

lemma tables_stay:
  assumes "planner_ok ins C P" "config_ok ins C" "binv ins P" "cons ins {ai} P"
    "ai < ins_N ins" "unheld ins ai P"
  shows "binv ins (reserve ai (C ! ai) P)"
    and "cons ins {x. occupied_next P ! (C ! ai) = Some x} (reserve ai (C ! ai) P)"
    and "fail_frame ins C {ai} P (reserve ai (C ! ai) P)"
proof -
  let ?v = "C ! ai"
  from assms(1) have l: "length (Agents P) = ins_N ins" "length (occupied_next P) = length (ins_G ins)"
    by (simp_all add: planner_ok_def)
  from assms(2,5) have v: "?v < length (ins_G ins)" by (simp add: config_ok_def)
  show "binv ins (reserve ai ?v P)"
    unfolding binv_def
  proof (intro allI impI)
    fix w b assume w: "w < length (ins_G ins)" and s: "occupied_next (reserve ai ?v P) ! w = Some b"
    show "b < ins_N ins \<and> vnext (reserve ai ?v P) b = Some w"
    proof (cases "w = ?v")
      case True
      with s l assms(5) v show ?thesis by simp
    next
      case False
      with s have s': "occupied_next P ! w = Some b" by simp
      with assms(6) w have "b \<noteq> ai" by (auto simp: unheld_def)
      with s' assms(3) w show ?thesis by (simp add: binv_def)
    qed
  qed
  show "cons ins {x. occupied_next P ! ?v = Some x} (reserve ai ?v P)"
    unfolding cons_def
  proof (intro allI impI)
    fix b w assume b: "b < ins_N ins" "b \<notin> {x. occupied_next P ! ?v = Some x}"
      and n: "vnext (reserve ai ?v P) b = Some w"
    show "w < length (ins_G ins) \<and> occupied_next (reserve ai ?v P) ! w = Some b"
    proof (cases "b = ai")
      case True
      with n l assms(5) v show ?thesis by simp
    next
      case False
      with n have "vnext P b = Some w" by simp
      with assms(4) b(1) False have "w < length (ins_G ins)" "occupied_next P ! w = Some b"
        by (simp_all add: cons_def)
      moreover with b(2) have "w \<noteq> ?v" by auto
      ultimately show ?thesis by simp
    qed
  qed
  show "fail_frame ins C {ai} P (reserve ai ?v P)"
    unfolding fail_frame_def
  proof (intro allI impI)
    fix w assume "w < length (ins_G ins)"
      "occupied_next (reserve ai ?v P) ! w \<noteq> occupied_next P ! w"
    then have "w = ?v" by (simp split: if_splits)
    with assms(5) show "\<exists>a<ins_N ins. C ! a = w \<and> (vnext P a = None \<or> a \<in> {ai})" by auto
  qed
qed

text \<open>What a call and a run of the loop do to the tables of reservations.\<close>

definition tables_post ::
  "Instance \<Rightarrow> Config \<Rightarrow> nat set \<Rightarrow> nat \<Rightarrow> 'r Planner \<Rightarrow> bool \<Rightarrow> 'r Planner \<Rightarrow> bool" where
  "tables_post ins C X ai P b P' =
     (binv ins P'
      \<and> (if b then cons ins {} P'
         else cons ins {x. occupied_next P ! (C ! ai) = Some x} P' \<and> fail_frame ins C X P P'))"

definition tables_call :: "Instance \<Rightarrow> 'r Planner \<Rightarrow> bool" where
  "tables_call ins P = (cons ins {} P \<and> binv ins P)"

definition tables_loop :: "Instance \<Rightarrow> nat \<Rightarrow> 'r Planner \<Rightarrow> bool" where
  "tables_loop ins ai P = (cons ins {ai} P \<and> binv ins P \<and> unheld ins ai P)"

lemma tables_enter:
  assumes "call_pre ins C ai P" "tables_call ins P"
    "Agents P0 = Agents P" "occupied_next P0 = occupied_next P"
  shows "tables_loop ins ai P0"
proof -
  from assms(1) have "vnext P ai = None" by (simp add: call_pre_def)
  with assms(2) have "unheld ins ai P" by (simp add: tables_call_def binv_unheld)
  with assms show ?thesis
    using cons_cong[OF assms(3,4), of ins "{ai}"] binv_cong[OF assms(3,4), of ins]
      unheld_cong[OF assms(4), of ins ai] cons_mono[of ins "{}" P "{ai}"]
    by (simp add: tables_loop_def tables_call_def)
qed

lemma tables_leave:
  assumes "call_pre ins C ai P" "tables_post ins C {ai} ai P0 b P'"
    "Agents P0 = Agents P" "occupied_next P0 = occupied_next P"
  shows "tables_post ins C {} ai P b P'"
proof -
  from assms(1) have un: "vnext P ai = None" by (simp add: call_pre_def)
  have "fail_frame ins C {} P P'" if "fail_frame ins C {ai} P0 P'"
    using that un assms(3,4) unfolding fail_frame_def by fastforce
  with assms(2,4) show ?thesis by (cases b) (simp_all add: tables_post_def)
qed

lemma tables_free:
  assumes "loop_pre ins C K v ai P" "tables_loop ins ai P" "k < K + 1"
    "occupied_next P ! (C_next P ! ai ! k) = None"
  shows "tables_call ins (reserve ai (C_next P ! ai ! k) P)"
proof -
  from assms(1) have ok: "planner_ok ins C P" and ai: "ai < ins_N ins"
    and K: "K = length (neighbor_of ins v)" and c: "cands_ok ins v ai P"
    unfolding loop_pre_def by blast+
  from c assms(3) K have u: "C_next P ! ai ! k < length (ins_G ins)" by (simp add: cands_ok_def)
  from assms(2) have t: "binv ins P" "cons ins {ai} P" "unheld ins ai P"
    by (simp_all add: tables_loop_def)
  from tables_reserve[OF ok t(1,2) ai u assms(4) t(3)] show ?thesis
    by (simp add: tables_call_def)
qed

lemma tables_retry:
  assumes C: "config_ok ins C"
    and pre: "loop_pre ins C K v ai P" and t: "tables_loop ins ai P" and k: "k < K + 1"
    and free: "occupied_next P ! (C_next P ! ai ! k) = None"
    and occ: "occupied_now P ! (C_next P ! ai ! k) = Some a"
    and un: "vnext (reserve ai (C_next P ! ai ! k) P) a = None"
    and fr: "planner_frame (reserve ai (C_next P ! ai ! k) P) P2"
    and cp: "call_post C a (reserve ai (C_next P ! ai ! k) P) False P2"
    and tp: "tables_post ins C {} a (reserve ai (C_next P ! ai ! k) P) False P2"
  shows "tables_loop ins ai P2"
    and "occupied_next P2 ! (C ! ai) = occupied_next P ! (C ! ai)"
    and "tables_post ins C {ai} ai P2 b P' \<Longrightarrow> tables_post ins C {ai} ai P b P'"
proof -
  let ?u = "C_next P ! ai ! k"
  let ?P1 = "reserve ai ?u P"
  from pre have ok: "planner_ok ins C P" and ai: "ai < ins_N ins" and v: "v = C ! ai"
    unfolding loop_pre_def by blast+
  from ok have l: "length (Agents P) = ins_N ins" "length (occupied_next P) = length (ins_G ins)"
    by (simp_all add: planner_ok_def)
  note nc = nested_call_pre[OF pre k occ un]
  note r = retry_loop_pre[OF pre k occ un fr cp]
  from C ai have vV: "C ! ai < length (ins_G ins)" by (simp add: config_ok_def)
  have uv: "?u \<noteq> C ! ai"
  proof
    assume "?u = C ! ai"
    with occ ok ai have "a = ai" by (simp add: planner_ok_def)
    with nc(2) show False by simp
  qed
  from nc(4,5) l have "{x. occupied_next ?P1 ! (C ! a) = Some x} = {ai}" by auto
  with tp have b2: "binv ins P2" and c2: "cons ins {ai} P2" and f2: "fail_frame ins C {} ?P1 P2"
    by (simp_all add: tables_post_def)
  from cp nc(4) have slot: "occupied_next P2 ! ?u = Some a" by (simp add: call_post_def)
  have "unheld ins ai P2"
    unfolding unheld_def
  proof (intro allI impI notI)
    fix w assume "w < length (ins_G ins)" "occupied_next P2 ! w = Some ai"
    with b2 have "vnext P2 ai = Some w" by (simp add: binv_def)
    with r(3) have "w = ?u" by simp
    with \<open>occupied_next P2 ! w = Some ai\<close> slot nc(2) show False by simp
  qed
  with b2 c2 show "tables_loop ins ai P2" by (simp add: tables_loop_def)
  have same: "occupied_next P2 ! (C ! ai) = occupied_next ?P1 ! (C ! ai)"
  proof (rule ccontr)
    assume "occupied_next P2 ! (C ! ai) \<noteq> occupied_next ?P1 ! (C ! ai)"
    with f2 vV obtain a' where a': "a' < ins_N ins" "C ! a' = C ! ai" "vnext ?P1 a' = None"
      unfolding fail_frame_def by blast
    from C a'(1,2) ai have "a' = ai" by (simp add: config_ok_def nth_eq_iff_index_eq)
    with a'(3) nc(6) show False by simp
  qed
  with uv show eq: "occupied_next P2 ! (C ! ai) = occupied_next P ! (C ! ai)" by simp
  assume tp': "tables_post ins C {ai} ai P2 b P'"
  have kp: "keeps {} ?P1 P2" using cp by (simp add: call_post_def)
  have "fail_frame ins C {ai} P P'" if ff: "fail_frame ins C {ai} P2 P'"
    unfolding fail_frame_def
  proof (intro allI impI)
    fix w assume w: "w < length (ins_G ins)" and ch: "occupied_next P' ! w \<noteq> occupied_next P ! w"
    consider "occupied_next P' ! w \<noteq> occupied_next P2 ! w"
      | "occupied_next P2 ! w \<noteq> occupied_next ?P1 ! w"
      | "occupied_next ?P1 ! w \<noteq> occupied_next P ! w"
      using ch by metis
    then show "\<exists>a<ins_N ins. C ! a = w \<and> (vnext P a = None \<or> a \<in> {ai})"
    proof cases
      case 1
      with ff w obtain a' where a': "a' < ins_N ins" "C ! a' = w" "vnext P2 a' = None \<or> a' = ai"
        unfolding fail_frame_def by blast
      have "vnext P a' = None" if "a' \<noteq> ai"
      proof (rule ccontr)
        assume "vnext P a' \<noteq> None"
        with that have "vnext ?P1 a' \<noteq> None" "vnext ?P1 a' = vnext P a'" by simp_all
        with kp have "vnext P2 a' = vnext P a'" by (simp add: keeps_def)
        with a'(3) that \<open>vnext P a' \<noteq> None\<close> show False by simp
      qed
      with a'(1,2) show ?thesis by auto
    next
      case 2
      with f2 w obtain a' where a': "a' < ins_N ins" "C ! a' = w" "vnext ?P1 a' = None"
        unfolding fail_frame_def by blast
      with nc(6) have "a' \<noteq> ai" by auto
      with a'(3) have "vnext P a' = None" by simp
      with a'(1,2) show ?thesis by auto
    next
      case 3
      then have "w = ?u" by (simp split: if_splits)
      moreover from un nc(2) have "vnext P a = None" by simp
      ultimately show ?thesis using nc(3,4) by auto
    qed
  qed
  with tp' eq show "tables_post ins C {ai} ai P b P'" by (cases b) (simp_all add: tables_post_def)
qed

lemma PIBT1_tables:
  assumes C: "config_ok ins C" and G: "graph_ok ins" and E: "env_ok env"
  shows "funcPIBT1 n env ins ai aj P = Some (b, P')
           \<Longrightarrow> call_pre ins C ai P \<and> tables_call ins P \<longrightarrow> tables_post ins C {} ai P b P'"
    and "PIBT_loop1 n env ins K v ai aj k P = Some (b, P')
           \<Longrightarrow> loop_pre ins C K v ai P \<and> tables_loop ins ai P \<longrightarrow> tables_post ins C {ai} ai P b P'"
proof -
  let ?Call = "\<lambda>(n::nat) ai (aj::nat option) P b P'.
     call_pre ins C ai P \<and> tables_call ins P \<longrightarrow> tables_post ins C {} ai P b P'"
  let ?Loop = "\<lambda>(n::nat) K v ai (aj::nat option) (k::nat) P b P'.
     loop_pre ins C K v ai P \<and> tables_loop ins ai P \<longrightarrow> tables_post ins C {ai} ai P b P'"
  have enter: "?Call (Suc n) ai aj P b P'"
    if "vnow P ai = Some v"
      "PIBT_loop1 n env ins (length (neighbor_of ins v)) v ai aj 0 (set_candidates env ins ai v P)
         = Some (b, P')"
      "?Loop n (length (neighbor_of ins v)) v ai aj 0 (set_candidates env ins ai v P) b P'"
    for n ai aj P b P' v
  proof (intro impI, elim conjE)
    assume pre: "call_pre ins C ai P" and t: "tables_call ins P"
    let ?P0 = "set_candidates env ins ai v P"
    have e: "Agents ?P0 = Agents P" "occupied_next ?P0 = occupied_next P" by simp_all
    from that(3) enter_loop_pre[OF C G E pre that(1)] tables_enter[OF pre t e]
    have "tables_post ins C {ai} ai ?P0 b P'" by simp
    from tables_leave[OF pre this e] show "tables_post ins C {} ai P b P'" .
  qed
  have exhausted: "?Loop n K v ai aj k P False (reserve ai v P)" for n K v ai aj k P
    using tables_stay[OF _ C, of P ai]
    by (auto simp: loop_pre_def tables_loop_def tables_post_def)
  have skip: "?Loop n K v ai aj k P b P'"
    if "k < K + 1"
       "occupied_next P ! (C_next P ! ai ! k) \<noteq> None
       \<or> (\<exists>j. aj = Some j \<and> Some (C_next P ! ai ! k) = vnow P j)
       \<or> (\<exists>a. occupied_now P ! (C_next P ! ai ! k) = Some a \<and> vnext P a = Some v)"
       "PIBT_loop1 n env ins K v ai aj (k + 1) P = Some (b, P')"
       "?Loop n K v ai aj (k + 1) P b P'"
    for n K v ai aj k P b P'
    using that(4) by simp
  have free: "?Loop n K v ai aj k P True (reserve ai (C_next P ! ai ! k) P)"
    if "k < K + 1" "occupied_next P ! (C_next P ! ai ! k) = None"
       "\<forall>a. occupied_now P ! (C_next P ! ai ! k) = Some a \<longrightarrow> vnext P a \<noteq> Some v"
       "occupied_now P ! (C_next P ! ai ! k) = None \<or> C_next P ! ai ! k = v
       \<or> (\<exists>a. occupied_now P ! (C_next P ! ai ! k) = Some a
               \<and> vnext (reserve ai (C_next P ! ai ! k) P) a \<noteq> None)"
    for n K v ai aj k P
    using tables_free[OF _ _ that(1,2)] by (auto simp: tables_post_def tables_call_def)
  have inherit: "?Loop n K v ai aj k P True P'"
    if "k < K + 1" "occupied_next P ! (C_next P ! ai ! k) = None"
       "occupied_now P ! (C_next P ! ai ! k) = Some a" "vnext P a \<noteq> Some v"
       "C_next P ! ai ! k \<noteq> v" "vnext (reserve ai (C_next P ! ai ! k) P) a = None"
       "funcPIBT1 n env ins a (Some ai) (reserve ai (C_next P ! ai ! k) P) = Some (True, P')"
       "?Call n a (Some ai) (reserve ai (C_next P ! ai ! k) P) True P'"
    for n K v ai aj k P a P'
  proof (intro impI, elim conjE)
    assume pre: "loop_pre ins C K v ai P" and t: "tables_loop ins ai P"
    from that(8) nested_call_pre(1)[OF pre that(1,3,6)] tables_free[OF pre t that(1,2)]
    show "tables_post ins C {ai} ai P True P'" by (simp add: tables_post_def)
  qed
  have retry: "?Loop n K v ai aj k P b P'"
    if "k < K + 1" "occupied_next P ! (C_next P ! ai ! k) = None"
       "occupied_now P ! (C_next P ! ai ! k) = Some a" "vnext P a \<noteq> Some v"
       "C_next P ! ai ! k \<noteq> v" "vnext (reserve ai (C_next P ! ai ! k) P) a = None"
       "funcPIBT1 n env ins a (Some ai) (reserve ai (C_next P ! ai ! k) P) = Some (False, P2)"
       "?Call n a (Some ai) (reserve ai (C_next P ! ai ! k) P) False P2"
       "PIBT_loop1 n env ins K v ai aj (k + 1) P2 = Some (b, P')"
       "?Loop n K v ai aj (k + 1) P2 b P'"
    for n K v ai aj k P a P2 b P'
  proof (intro impI, elim conjE)
    assume pre: "loop_pre ins C K v ai P" and t: "tables_loop ins ai P"
    let ?P1 = "reserve ai (C_next P ! ai ! k) P"
    note nc = nested_call_pre(1)[OF pre that(1,3,6)]
    from PIBT1_post(1)[OF C G E that(7)] nc have cp: "call_post C a ?P1 False P2" by simp
    from that(8) nc tables_free[OF pre t that(1,2)]
    have tp: "tables_post ins C {} a ?P1 False P2" by simp
    note fr = PIBT1_frame(1)[OF that(7)]
    note tr = tables_retry[OF C pre t that(1,2,3,6) fr cp tp]
    from that(10) retry_loop_pre(1)[OF pre that(1,3,6) fr cp] tr(1)
    have "tables_post ins C {ai} ai P2 b P'" by simp
    then show "tables_post ins C {ai} ai P b P'" by (rule tr(3))
  qed
  show "funcPIBT1 n env ins ai aj P = Some (b, P')
           \<Longrightarrow> call_pre ins C ai P \<and> tables_call ins P \<longrightarrow> tables_post ins C {} ai P b P'"
    by (rule PIBT1_induct(1)[where Call = ?Call and Loop = ?Loop,
          OF enter exhausted skip free inherit retry])
  show "PIBT_loop1 n env ins K v ai aj k P = Some (b, P')
           \<Longrightarrow> loop_pre ins C K v ai P \<and> tables_loop ins ai P \<longrightarrow> tables_post ins C {ai} ai P b P'"
    by (rule PIBT1_induct(2)[where Call = ?Call and Loop = ?Loop,
          OF enter exhausted skip free inherit retry])
qed

subsection \<open>The swap rule of LaCAM2 keeps the tables sound\<close>

text \<open>The agent returned by \<open>swap_possible_and_required\<close> stands on a neighbour of \<open>v\<close>.\<close>

definition swap_ok :: "Instance \<Rightarrow> Config \<Rightarrow> nat \<Rightarrow> nat option \<Rightarrow> bool" where
  "swap_ok ins C v sa = (\<forall>s. sa = Some s \<longrightarrow> s < ins_N ins \<and> C ! s \<in> set (neighbor_of ins v))"

lemma swap_clear_result:
  "swap_clear env ins P ai v c0 us = Some (Some s) \<Longrightarrow> \<exists>u\<in>set us. occupied_now P ! u = Some s"
  by (induction us) (auto split: option.splits if_splits bool.splits)

lemma swap_result:
  assumes "graph_ok ins" "config_ok ins C" "loop_pre ins C K v ai P"
    and "if FLG_SWAP env then swap_possible_and_required env ins P ai v = Some sa else sa = None"
  shows "swap_ok ins C v sa"
  unfolding swap_ok_def
proof (intro allI impI)
  fix s assume sa: "sa = Some s"
  from assms(3) have ok: "planner_ok ins C P" and ai: "ai < ins_N ins" and v: "v = C ! ai"
    and c: "cands_ok ins v ai P"
    unfolding loop_pre_def by blast+
  from assms(2) ai v have vV: "v < length (ins_G ins)" by (simp add: config_ok_def)
  let ?c0 = "C_next P ! ai ! 0"
  from c have c0: "?c0 < length (ins_G ins)" "?c0 = v \<or> ?c0 \<in> set (neighbor_of ins v)"
    by (simp_all add: cands_ok_def)
  from assms(4) sa have r: "swap_possible_and_required env ins P ai v = Some (Some s)"
    by (simp split: if_splits)
  then have ne: "?c0 \<noteq> v" by (auto simp: swap_possible_and_required_def Let_def)
  from r ne consider "occupied_now P ! ?c0 = Some s"
    | "swap_clear env ins P ai v ?c0 (neighbor_of ins v) = Some (Some s)"
    by (auto simp: swap_possible_and_required_def Let_def split: option.splits bool.splits)
  then obtain u where u: "u \<in> set (neighbor_of ins v)" "occupied_now P ! u = Some s"
  proof cases
    case 1
    with c0(2) ne that show ?thesis by auto
  next
    case 2
    from swap_clear_result[OF this] that show ?thesis by auto
  qed
  from u(1) assms(1) vV have "u < length (ins_G ins)"
    unfolding graph_ok_def neighbor_of_def by blast
  with ok u(2) have "s < ins_N ins" "C ! s = u" by (simp_all add: planner_ok_def)
  with u(1) show "s < ins_N ins \<and> C ! s \<in> set (neighbor_of ins v)" by simp
qed

lemma pull_swap_agent_cases:
  "pull_swap_agent env k sa v P = P
   \<or> (\<exists>s. sa = Some s \<and> vnext P s = None \<and> occupied_next P ! v = None
          \<and> pull_swap_agent env k sa v P = reserve s v P)"
  by (auto simp: pull_swap_agent_def reserve_def set_v_next_def set_occupied_next_def
           split: option.splits)

lemma good_pull:
  assumes "good ins C P" "planner_ok ins C P" "config_ok ins C" "graph_ok ins" "ai < ins_N ins"
    and "swap_ok ins C (C ! ai) sa"
    and "\<forall>s. sa = Some s \<longrightarrow> s \<noteq> ai \<longrightarrow> vnext P s = None \<longrightarrow> vnext P ai \<noteq> Some (C ! s)"
  shows "good ins C (pull_swap_agent env k sa (C ! ai) P)"
proof -
  let ?v = "C ! ai"
  from pull_swap_agent_cases[of env k sa ?v P] show ?thesis
  proof (elim disjE exE conjE)
    assume "pull_swap_agent env k sa ?v P = P"
    with assms(1) show ?thesis by simp
  next
    fix s assume s: "sa = Some s" "vnext P s = None" "occupied_next P ! ?v = None"
      and e: "pull_swap_agent env k sa ?v P = reserve s ?v P"
    from assms(3,5) have vV: "?v < length (ins_G ins)" by (simp add: config_ok_def)
    from assms(6) s(1) have sN: "s < ins_N ins" and nb: "C ! s \<in> set (neighbor_of ins ?v)"
      by (simp_all add: swap_ok_def)
    from nb assms(4) vV have mv: "?v = C ! s \<or> ?v \<in> set (neighbor_of ins (C ! s))"
      unfolding graph_ok_def neighbor_of_def by blast
    have sw: "\<forall>a. occupied_now P ! ?v = Some a \<longrightarrow> a = s \<or> vnext P a \<noteq> Some (C ! s)"
    proof (intro allI impI)
      fix a assume "occupied_now P ! ?v = Some a"
      with assms(2,5) have "a = ai" by (simp add: planner_ok_def)
      with assms(7) s(1,2) show "a = s \<or> vnext P a \<noteq> Some (C ! s)" by auto
    qed
    from good_reserve[OF assms(1,2,3) sN vV mv sw] e show ?thesis by simp
  qed
qed

lemma tables_pull:
  assumes "tables_call ins P" "planner_ok ins C P" "swap_ok ins C v sa" "v < length (ins_G ins)"
  shows "tables_call ins (pull_swap_agent env k sa v P)"
proof -
  from pull_swap_agent_cases[of env k sa v P] show ?thesis
  proof (elim disjE exE conjE)
    assume "pull_swap_agent env k sa v P = P"
    with assms(1) show ?thesis by simp
  next
    fix s assume s: "sa = Some s" "vnext P s = None" "occupied_next P ! v = None"
      and e: "pull_swap_agent env k sa v P = reserve s v P"
    from assms(1) have t: "binv ins P" "cons ins {} P" by (simp_all add: tables_call_def)
    from assms(3) s(1) have sN: "s < ins_N ins" by (simp add: swap_ok_def)
    from tables_reserve[OF assms(2) t sN assms(4) s(3) binv_unheld[OF t(1) s(2)]] e
    show ?thesis by (simp add: tables_call_def)
  qed
qed

text \<open>The loop of LaCAM2 runs with the swap agent computed at its entry.\<close>

definition loop_pre2 ::
  "Instance \<Rightarrow> Config \<Rightarrow> nat \<Rightarrow> nat \<Rightarrow> nat \<Rightarrow> nat option \<Rightarrow> 'r Planner \<Rightarrow> bool" where
  "loop_pre2 ins C K v ai sa P = (loop_pre ins C K v ai P \<and> swap_ok ins C v sa)"

lemma enter_loop_pre2':
  assumes C: "config_ok ins C" and G: "graph_ok ins" and E: "env_ok env"
    and pre: "call_pre ins C ai P" and v: "vnow P ai = Some v"
    and sw: "if FLG_SWAP env
       then swap_possible_and_required env ins (set_candidates env ins ai v P) ai v = Some sa
       else sa = None"
  shows "loop_pre2 ins C (length (neighbor_of ins v)) v ai sa (loop_entry2 env ins ai v sa P)"
  using enter_loop_pre2[OF C G E pre v] swap_result[OF G C enter_loop_pre[OF C G E pre v] sw]
  by (simp add: loop_pre2_def)

lemma PIBT2_good:
  assumes C: "config_ok ins C" and G: "graph_ok ins" and E: "env_ok env"
  shows "funcPIBT2 n env ins ai P = Some (b, P')
           \<Longrightarrow> call_pre ins C ai P \<and> good ins C P \<longrightarrow> good ins C P'"
    and "PIBT_loop2 n env ins K v ai sa k P = Some (b, P')
           \<Longrightarrow> loop_pre2 ins C K v ai sa P \<and> good ins C P \<longrightarrow> good ins C P'"
proof -
  let ?Call = "\<lambda>(n::nat) ai P (b::bool) P'. call_pre ins C ai P \<and> good ins C P \<longrightarrow> good ins C P'"
  let ?Loop = "\<lambda>(n::nat) K v ai sa (k::nat) P (b::bool) P'.
     loop_pre2 ins C K v ai sa P \<and> good ins C P \<longrightarrow> good ins C P'"
  have enter: "?Call (Suc n) ai P b P'"
    if "vnow P ai = Some v"
      "if FLG_SWAP env
       then swap_possible_and_required env ins (set_candidates env ins ai v P) ai v = Some sa
       else sa = None"
      "PIBT_loop2 n env ins (length (neighbor_of ins v)) v ai sa 0 (loop_entry2 env ins ai v sa P)
         = Some (b, P')"
      "?Loop n (length (neighbor_of ins v)) v ai sa 0 (loop_entry2 env ins ai v sa P) b P'"
    for n ai P b P' v sa
    using that(4) enter_loop_pre2'[OF C G E _ that(1,2)]
      good_cong[of "loop_entry2 env ins ai v sa P" P ins C]
    by simp
  have exhausted: "?Loop n K v ai sa k P False (reserve ai v P)" for n K v ai sa k P
    using good_stay[OF _ _ C] by (auto simp: loop_pre_def loop_pre2_def)
  have skip: "?Loop n K v ai sa k P b P'"
    if "k < K + 1"
       "occupied_next P ! (C_next P ! ai ! k) \<noteq> None
       \<or> (\<exists>a. occupied_now P ! (C_next P ! ai ! k) = Some a \<and> vnext P a = Some v)"
       "PIBT_loop2 n env ins K v ai sa (k + 1) P = Some (b, P')"
       "?Loop n K v ai sa (k + 1) P b P'"
    for n K v ai sa k P b P'
    using that(4) by simp
  have free: "?Loop n K v ai sa k P True (pull_swap_agent env k sa v (reserve ai (C_next P ! ai ! k) P))"
    if "k < K + 1" "occupied_next P ! (C_next P ! ai ! k) = None"
       "\<forall>a. occupied_now P ! (C_next P ! ai ! k) = Some a \<longrightarrow> vnext P a \<noteq> Some v"
       "occupied_now P ! (C_next P ! ai ! k) = None \<or> occupied_now P ! (C_next P ! ai ! k) = Some ai
       \<or> (\<exists>a. occupied_now P ! (C_next P ! ai ! k) = Some a
               \<and> vnext (reserve ai (C_next P ! ai ! k) P) a \<noteq> None)"
    for n K v ai sa k P
  proof (intro impI, elim conjE)
    assume pre2: "loop_pre2 ins C K v ai sa P" and g: "good ins C P"
    let ?u = "C_next P ! ai ! k"
    let ?P1 = "reserve ai ?u P"
    from pre2 have pre: "loop_pre ins C K v ai P" and so: "swap_ok ins C v sa"
      by (simp_all add: loop_pre2_def)
    from pre have ok: "planner_ok ins C P" and ai: "ai < ins_N ins" and v: "v = C ! ai"
      unfolding loop_pre_def by blast+
    from ok have l: "length (Agents P) = ins_N ins" by (simp add: planner_ok_def)
    note g1 = good_candidate[OF g C pre that(1,3)]
    have ok1: "planner_ok ins C ?P1" by (rule planner_ok_frame[OF ok]) simp
    have "vnext ?P1 ai \<noteq> Some (C ! s)"
      if s: "sa = Some s" "s \<noteq> ai" "vnext ?P1 s = None" for s
    proof
      assume "vnext ?P1 ai = Some (C ! s)"
      with ai l have u: "?u = C ! s" by simp
      from so s(1) have "s < ins_N ins" by (simp add: swap_ok_def)
      with ok u have "occupied_now P ! ?u = Some s" by (simp add: planner_ok_def)
      with \<open>occupied_now P ! ?u = None \<or> occupied_now P ! ?u = Some ai
       \<or> (\<exists>a. occupied_now P ! ?u = Some a \<and> vnext ?P1 a \<noteq> None)\<close> s(2,3)
      show False by auto
    qed
    then have "\<forall>s. sa = Some s \<longrightarrow> s \<noteq> ai \<longrightarrow> vnext ?P1 s = None \<longrightarrow> vnext ?P1 ai \<noteq> Some (C ! s)"
      by blast
    from good_pull[OF g1 ok1 C G ai so[unfolded v] this]
    show "good ins C (pull_swap_agent env k sa v ?P1)" unfolding v .
  qed
  have inherit: "?Loop n K v ai sa k P True (pull_swap_agent env k sa v P2)"
    if "k < K + 1" "occupied_next P ! (C_next P ! ai ! k) = None"
       "occupied_now P ! (C_next P ! ai ! k) = Some a" "vnext P a \<noteq> Some v"
       "a \<noteq> ai" "vnext (reserve ai (C_next P ! ai ! k) P) a = None"
       "funcPIBT2 n env ins a (reserve ai (C_next P ! ai ! k) P) = Some (True, P2)"
       "?Call n a (reserve ai (C_next P ! ai ! k) P) True P2"
    for n K v ai sa k P a P2
  proof (intro impI, elim conjE)
    assume pre2: "loop_pre2 ins C K v ai sa P" and g: "good ins C P"
    let ?u = "C_next P ! ai ! k"
    let ?P1 = "reserve ai ?u P"
    from pre2 have pre: "loop_pre ins C K v ai P" and so: "swap_ok ins C v sa"
      by (simp_all add: loop_pre2_def)
    from pre have ok: "planner_ok ins C P" and ai: "ai < ins_N ins" and v: "v = C ! ai"
      unfolding loop_pre_def by blast+
    from that(3,4) have "\<forall>a. occupied_now P ! ?u = Some a \<longrightarrow> vnext P a \<noteq> Some v" by simp
    note g1 = good_candidate[OF g C pre that(1) this]
    note nc = nested_call_pre[OF pre that(1,3,6)]
    from g1 nc(1) that(8) have g2: "good ins C P2" by simp
    from PIBT2_post(1)[OF C G E that(7)] nc(1) have cp: "call_post C a ?P1 True P2" by simp
    note fr = PIBT2_frame(1)[OF that(7)]
    note r = retry_loop_pre[OF pre that(1,3,6) fr cp]
    from r(1) have ok2: "planner_ok ins C P2" by (simp add: loop_pre_def)
    have "vnext P2 ai \<noteq> Some (C ! s)"
      if s: "sa = Some s" "s \<noteq> ai" "vnext P2 s = None" for s
    proof
      assume "vnext P2 ai = Some (C ! s)"
      with r(3) nc(4) have "C ! a = C ! s" by simp
      moreover from so s(1) have "s < ins_N ins" by (simp add: swap_ok_def)
      ultimately have "a = s" using C nc(3) by (simp add: config_ok_def nth_eq_iff_index_eq)
      with cp s(3) show False by (simp add: call_post_def)
    qed
    then have "\<forall>s. sa = Some s \<longrightarrow> s \<noteq> ai \<longrightarrow> vnext P2 s = None \<longrightarrow> vnext P2 ai \<noteq> Some (C ! s)"
      by blast
    from good_pull[OF g2 ok2 C G ai so[unfolded v] this]
    show "good ins C (pull_swap_agent env k sa v P2)" unfolding v .
  qed
  have retry: "?Loop n K v ai sa k P b P'"
    if "k < K + 1" "occupied_next P ! (C_next P ! ai ! k) = None"
       "occupied_now P ! (C_next P ! ai ! k) = Some a" "vnext P a \<noteq> Some v"
       "a \<noteq> ai" "vnext (reserve ai (C_next P ! ai ! k) P) a = None"
       "funcPIBT2 n env ins a (reserve ai (C_next P ! ai ! k) P) = Some (False, P2)"
       "?Call n a (reserve ai (C_next P ! ai ! k) P) False P2"
       "PIBT_loop2 n env ins K v ai sa (k + 1) P2 = Some (b, P')"
       "?Loop n K v ai sa (k + 1) P2 b P'"
    for n K v ai sa k P a P2 b P'
  proof (intro impI, elim conjE)
    assume pre2: "loop_pre2 ins C K v ai sa P" and g: "good ins C P"
    let ?P1 = "reserve ai (C_next P ! ai ! k) P"
    from pre2 have pre: "loop_pre ins C K v ai P" and so: "swap_ok ins C v sa"
      by (simp_all add: loop_pre2_def)
    from that(3,4) have "\<forall>a. occupied_now P ! (C_next P ! ai ! k) = Some a \<longrightarrow> vnext P a \<noteq> Some v"
      by simp
    note g1 = good_candidate[OF g C pre that(1) this]
    note nc = nested_call_pre(1)[OF pre that(1,3,6)]
    from g1 nc that(8) have g2: "good ins C P2" by simp
    from PIBT2_post(1)[OF C G E that(7)] nc have cp: "call_post C a ?P1 False P2" by simp
    from retry_loop_pre(1)[OF pre that(1,3,6) PIBT2_frame(1)[OF that(7)] cp] g2 that(10) so
    show "good ins C P'" by (simp add: loop_pre2_def)
  qed
  show "funcPIBT2 n env ins ai P = Some (b, P')
           \<Longrightarrow> call_pre ins C ai P \<and> good ins C P \<longrightarrow> good ins C P'"
    by (rule PIBT2_induct(1)[where Call = ?Call and Loop = ?Loop,
          OF enter exhausted skip free inherit retry])
  show "PIBT_loop2 n env ins K v ai sa k P = Some (b, P')
           \<Longrightarrow> loop_pre2 ins C K v ai sa P \<and> good ins C P \<longrightarrow> good ins C P'"
    by (rule PIBT2_induct(2)[where Call = ?Call and Loop = ?Loop,
          OF enter exhausted skip free inherit retry])
qed

lemma PIBT2_tables:
  assumes C: "config_ok ins C" and G: "graph_ok ins" and E: "env_ok env"
  shows "funcPIBT2 n env ins ai P = Some (b, P')
           \<Longrightarrow> call_pre ins C ai P \<and> tables_call ins P \<longrightarrow> tables_post ins C {} ai P b P'"
    and "PIBT_loop2 n env ins K v ai sa k P = Some (b, P')
           \<Longrightarrow> loop_pre2 ins C K v ai sa P \<and> tables_loop ins ai P
               \<longrightarrow> tables_post ins C {ai} ai P b P'"
proof -
  let ?Call = "\<lambda>(n::nat) ai P b P'.
     call_pre ins C ai P \<and> tables_call ins P \<longrightarrow> tables_post ins C {} ai P b P'"
  let ?Loop = "\<lambda>(n::nat) K v ai sa (k::nat) P b P'.
     loop_pre2 ins C K v ai sa P \<and> tables_loop ins ai P \<longrightarrow> tables_post ins C {ai} ai P b P'"
  have enter: "?Call (Suc n) ai P b P'"
    if "vnow P ai = Some v"
      "if FLG_SWAP env
       then swap_possible_and_required env ins (set_candidates env ins ai v P) ai v = Some sa
       else sa = None"
      "PIBT_loop2 n env ins (length (neighbor_of ins v)) v ai sa 0 (loop_entry2 env ins ai v sa P)
         = Some (b, P')"
      "?Loop n (length (neighbor_of ins v)) v ai sa 0 (loop_entry2 env ins ai v sa P) b P'"
    for n ai P b P' v sa
  proof (intro impI, elim conjE)
    assume pre: "call_pre ins C ai P" and t: "tables_call ins P"
    let ?P0 = "loop_entry2 env ins ai v sa P"
    have e: "Agents ?P0 = Agents P" "occupied_next ?P0 = occupied_next P" by simp_all
    from that(4) enter_loop_pre2'[OF C G E pre that(1,2)] tables_enter[OF pre t e]
    have "tables_post ins C {ai} ai ?P0 b P'" by simp
    from tables_leave[OF pre this e] show "tables_post ins C {} ai P b P'" .
  qed
  have exhausted: "?Loop n K v ai sa k P False (reserve ai v P)" for n K v ai sa k P
    using tables_stay[OF _ C, of P ai]
    by (auto simp: loop_pre_def loop_pre2_def tables_loop_def tables_post_def)
  have skip: "?Loop n K v ai sa k P b P'"
    if "k < K + 1"
       "occupied_next P ! (C_next P ! ai ! k) \<noteq> None
       \<or> (\<exists>a. occupied_now P ! (C_next P ! ai ! k) = Some a \<and> vnext P a = Some v)"
       "PIBT_loop2 n env ins K v ai sa (k + 1) P = Some (b, P')"
       "?Loop n K v ai sa (k + 1) P b P'"
    for n K v ai sa k P b P'
    using that(4) by simp
  have pulled: "tables_post ins C {ai} ai P True (pull_swap_agent env k sa v P1)"
    if "loop_pre2 ins C K v ai sa P" "tables_call ins P1" "planner_frame P P1"
    for K v ai sa P k P1
  proof -
    from that(1) have ok: "planner_ok ins C P" and ai: "ai < ins_N ins" and v: "v = C ! ai"
      and so: "swap_ok ins C v sa"
      unfolding loop_pre_def loop_pre2_def by blast+
    from C ai v have vV: "v < length (ins_G ins)" by (simp add: config_ok_def)
    from tables_pull[OF that(2) planner_ok_frame[OF ok that(3)] so vV]
    show ?thesis by (simp add: tables_post_def tables_call_def)
  qed
  have free: "?Loop n K v ai sa k P True (pull_swap_agent env k sa v (reserve ai (C_next P ! ai ! k) P))"
    if "k < K + 1" "occupied_next P ! (C_next P ! ai ! k) = None"
       "\<forall>a. occupied_now P ! (C_next P ! ai ! k) = Some a \<longrightarrow> vnext P a \<noteq> Some v"
       "occupied_now P ! (C_next P ! ai ! k) = None \<or> occupied_now P ! (C_next P ! ai ! k) = Some ai
       \<or> (\<exists>a. occupied_now P ! (C_next P ! ai ! k) = Some a
               \<and> vnext (reserve ai (C_next P ! ai ! k) P) a \<noteq> None)"
    for n K v ai sa k P
  proof (intro impI, elim conjE)
    assume pre2: "loop_pre2 ins C K v ai sa P" and t: "tables_loop ins ai P"
    then have pre: "loop_pre ins C K v ai P" by (simp add: loop_pre2_def)
    show "tables_post ins C {ai} ai P True
            (pull_swap_agent env k sa v (reserve ai (C_next P ! ai ! k) P))"
      by (rule pulled[OF pre2 tables_free[OF pre t that(1,2)]]) simp
  qed
  have inherit: "?Loop n K v ai sa k P True (pull_swap_agent env k sa v P2)"
    if "k < K + 1" "occupied_next P ! (C_next P ! ai ! k) = None"
       "occupied_now P ! (C_next P ! ai ! k) = Some a" "vnext P a \<noteq> Some v"
       "a \<noteq> ai" "vnext (reserve ai (C_next P ! ai ! k) P) a = None"
       "funcPIBT2 n env ins a (reserve ai (C_next P ! ai ! k) P) = Some (True, P2)"
       "?Call n a (reserve ai (C_next P ! ai ! k) P) True P2"
    for n K v ai sa k P a P2
  proof (intro impI, elim conjE)
    assume pre2: "loop_pre2 ins C K v ai sa P" and t: "tables_loop ins ai P"
    then have pre: "loop_pre ins C K v ai P" by (simp add: loop_pre2_def)
    from that(8) nested_call_pre(1)[OF pre that(1,3,6)] tables_free[OF pre t that(1,2)]
    have "tables_call ins P2" by (simp add: tables_post_def tables_call_def)
    moreover have "planner_frame P P2"
      by (rule planner_frame_trans[OF planner_frame_reserve PIBT2_frame(1)[OF that(7)]])
    ultimately show "tables_post ins C {ai} ai P True (pull_swap_agent env k sa v P2)"
      by (rule pulled[OF pre2])
  qed
  have retry: "?Loop n K v ai sa k P b P'"
    if "k < K + 1" "occupied_next P ! (C_next P ! ai ! k) = None"
       "occupied_now P ! (C_next P ! ai ! k) = Some a" "vnext P a \<noteq> Some v"
       "a \<noteq> ai" "vnext (reserve ai (C_next P ! ai ! k) P) a = None"
       "funcPIBT2 n env ins a (reserve ai (C_next P ! ai ! k) P) = Some (False, P2)"
       "?Call n a (reserve ai (C_next P ! ai ! k) P) False P2"
       "PIBT_loop2 n env ins K v ai sa (k + 1) P2 = Some (b, P')"
       "?Loop n K v ai sa (k + 1) P2 b P'"
    for n K v ai sa k P a P2 b P'
  proof (intro impI, elim conjE)
    assume pre2: "loop_pre2 ins C K v ai sa P" and t: "tables_loop ins ai P"
    then have pre: "loop_pre ins C K v ai P" and so: "swap_ok ins C v sa"
      by (simp_all add: loop_pre2_def)
    let ?P1 = "reserve ai (C_next P ! ai ! k) P"
    note nc = nested_call_pre(1)[OF pre that(1,3,6)]
    from PIBT2_post(1)[OF C G E that(7)] nc have cp: "call_post C a ?P1 False P2" by simp
    from that(8) nc tables_free[OF pre t that(1,2)]
    have tp: "tables_post ins C {} a ?P1 False P2" by simp
    note fr = PIBT2_frame(1)[OF that(7)]
    note tr = tables_retry[OF C pre t that(1,2,3,6) fr cp tp]
    from that(10) retry_loop_pre(1)[OF pre that(1,3,6) fr cp] tr(1) so
    have "tables_post ins C {ai} ai P2 b P'" by (simp add: loop_pre2_def)
    then show "tables_post ins C {ai} ai P b P'" by (rule tr(3))
  qed
  show "funcPIBT2 n env ins ai P = Some (b, P')
           \<Longrightarrow> call_pre ins C ai P \<and> tables_call ins P \<longrightarrow> tables_post ins C {} ai P b P'"
    by (rule PIBT2_induct(1)[where Call = ?Call and Loop = ?Loop,
          OF enter exhausted skip free inherit retry])
  show "PIBT_loop2 n env ins K v ai sa k P = Some (b, P')
           \<Longrightarrow> loop_pre2 ins C K v ai sa P \<and> tables_loop ins ai P
               \<longrightarrow> tables_post ins C {ai} ai P b P'"
    by (rule PIBT2_induct(2)[where Call = ?Call and Loop = ?Loop,
          OF enter exhausted skip free inherit retry])
qed

subsection \<open>Setting up the scratch tables\<close>

text \<open>
  What holds of the scratch tables between two calls of \<open>get_new_config\<close>: the tables have
  the sizes given at construction, and every entry of \<open>occupied_now\<close> and \<open>occupied_next\<close>
  names an agent that has this vertex as its \<open>v_now\<close>, respectively \<open>v_next\<close>.
\<close>

definition planner_inv :: "Instance \<Rightarrow> 'r Planner \<Rightarrow> bool" where
  "planner_inv ins P =
     (length (Agents P) = ins_N ins
      \<and> length (C_next P) = ins_N ins
      \<and> length (occupied_now P) = length (ins_G ins)
      \<and> length (occupied_next P) = length (ins_G ins)
      \<and> (\<forall>u<length (ins_G ins). \<forall>a. occupied_now P ! u = Some a \<longrightarrow> a < ins_N ins \<and> vnow P a = Some u)
      \<and> binv ins P)"

lemma planner_inv_init: "planner_inv ins (init_Planner ins mt)"
  by (simp add: planner_inv_def init_Planner_def binv_def)

text \<open>The tables after the agents below \<open>j\<close> went through the loop that sets up the cache.\<close>

definition setup_inv :: "Instance \<Rightarrow> Config \<Rightarrow> nat \<Rightarrow> 'r Planner \<Rightarrow> bool" where
  "setup_inv ins C j P =
     (planner_inv ins P
      \<and> (\<forall>a<j. vnow P a = Some (C ! a) \<and> occupied_now P ! (C ! a) = Some a \<and> vnext P a = None))"

lemma setup_cache_agent_inv:
  assumes inv: "setup_inv ins C j P" and j: "j < ins_N ins" and C: "config_ok ins C"
  shows "setup_inv ins C (Suc j) (setup_cache_agent C j P)"
proof -
  let ?V = "length (ins_G ins)"
  define P1 where "P1 = (case vnow P j of
                  None \<Rightarrow> P
                | Some v \<Rightarrow> if occupied_now P ! v = Some j then set_occupied_now v None P else P)"
  define P2 where "P2 = (case vnext P1 j of
                  None \<Rightarrow> P1
                | Some v \<Rightarrow> set_v_next j None (set_occupied_next v None P1))"
  have res: "setup_cache_agent C j P = set_occupied_now (C ! j) (Some j) (set_v_now j (Some (C ! j)) P2)"
    unfolding setup_cache_agent_def Let_def P2_def P1_def by (rule refl)
  from inv have l: "length (Agents P) = ins_N ins" "length (C_next P) = ins_N ins"
      "length (occupied_now P) = ?V" "length (occupied_next P) = ?V"
    and now: "\<And>u a. u < ?V \<Longrightarrow> occupied_now P ! u = Some a \<Longrightarrow> a < ins_N ins \<and> vnow P a = Some u"
    and nxt: "\<And>u a. u < ?V \<Longrightarrow> occupied_next P ! u = Some a \<Longrightarrow> a < ins_N ins \<and> vnext P a = Some u"
    and dn: "\<And>a. a < j \<Longrightarrow> vnow P a = Some (C ! a) \<and> occupied_now P ! (C ! a) = Some a \<and> vnext P a = None"
    by (auto simp: setup_inv_def planner_inv_def binv_def)
  from C j have cj: "C ! j < ?V" by (simp add: config_ok_def)
  have cd: "C ! a \<noteq> C ! j" "C ! a < ?V" if "a < j" for a
    using C j that by (auto simp: config_ok_def nth_eq_iff_index_eq)
  have P1_eq: "Agents P1 = Agents P" "occupied_next P1 = occupied_next P"
    "C_next P1 = C_next P" "length (occupied_now P1) = ?V"
    using l by (auto simp: P1_def split: option.splits)
  have P1_now: "occupied_now P1 ! u = (if occupied_now P ! u = Some j then None else occupied_now P ! u)"
    if "u < ?V" for u
  proof (cases "occupied_now P ! u = Some j")
    case True
    with now[OF that] have "vnow P j = Some u" by simp
    with True that l show ?thesis by (simp add: P1_def)
  next
    case False
    then show ?thesis by (auto simp: P1_def split: option.splits)
  qed
  have P2_eq: "occupied_now P2 = occupied_now P1" "C_next P2 = C_next P"
    "length (Agents P2) = ins_N ins" "length (occupied_next P2) = ?V"
    "\<And>a. vnow P2 a = vnow P a"
    using l P1_eq by (auto simp: P2_def split: option.splits)
  have P2_next: "vnext P2 a = (if a = j then None else vnext P a)" for a
    using l j P1_eq by (auto simp: P2_def split: option.splits)
  have P2_slot: "occupied_next P2 ! u = Some a \<Longrightarrow> occupied_next P ! u = Some a \<and> a \<noteq> j"
    if "u < ?V" for u a
  proof -
    assume s: "occupied_next P2 ! u = Some a"
    show "occupied_next P ! u = Some a \<and> a \<noteq> j"
    proof (cases "vnext P j")
      case None
      with s P1_eq have "occupied_next P ! u = Some a" by (simp add: P2_def)
      with nxt[OF that] None show ?thesis by auto
    next
      case (Some w)
      with s P1_eq l have s': "occupied_next P ! u = Some a" "\<not> (u = w \<and> w < ?V)"
        by (auto simp: P2_def split: if_splits)
      with nxt[OF that s'(1)] Some that show ?thesis by auto
    qed
  qed
  let ?P' = "setup_cache_agent C j P"
  have len: "length (Agents ?P') = ins_N ins" "length (C_next ?P') = ins_N ins"
    "length (occupied_now ?P') = ?V" "length (occupied_next ?P') = ?V"
    using P2_eq P1_eq l by (simp_all add: res)
  have vnow': "vnow ?P' a = (if a = j then Some (C ! j) else vnow P a)" for a
    using P2_eq j by (simp add: res)
  have vnext': "vnext ?P' a = (if a = j then None else vnext P a)" for a
    using P2_next by (simp add: res)
  have now': "occupied_now ?P' ! u
      = (if u = C ! j then Some j
         else if occupied_now P ! u = Some j then None else occupied_now P ! u)"
    if "u < ?V" for u
    using P2_eq P1_eq P1_now[OF that] cj by (simp add: res)
  have next': "occupied_next ?P' ! u = Some a \<Longrightarrow> occupied_next P ! u = Some a \<and> a \<noteq> j"
    if "u < ?V" for u a
    using P2_slot[OF that, of a] by (simp add: res)
  have "planner_inv ins ?P'"
    unfolding planner_inv_def binv_def
  proof (intro conjI allI impI)
    fix u a assume u: "u < ?V" and s: "occupied_now ?P' ! u = Some a"
    show "a < ins_N ins" "vnow ?P' a = Some u"
      using s now[OF u, of a] j unfolding now'[OF u] vnow'
      by (auto split: if_splits)
  next
    fix u a assume u: "u < ?V" and s: "occupied_next ?P' ! u = Some a"
    from next'[OF u s] nxt[OF u, of a] show "a < ins_N ins" "vnext ?P' a = Some u"
      unfolding vnext' by auto
  qed (use len in simp_all)
  moreover have "vnow ?P' a = Some (C ! a) \<and> occupied_now ?P' ! (C ! a) = Some a \<and> vnext ?P' a = None"
    if "a < Suc j" for a
  proof (cases "a = j")
    case True
    with now'[OF cj] show ?thesis by (simp add: vnow' vnext')
  next
    case False
    with that have a: "a < j" by simp
    from dn[OF a] cd[OF a] False now'[OF cd(2)[OF a]] show ?thesis
      by (simp add: vnow' vnext')
  qed
  ultimately show ?thesis by (simp add: setup_inv_def)
qed

lemma setup_cache_inv:
  assumes "planner_inv ins P" "config_ok ins C"
  shows "setup_inv ins C (ins_N ins) (setup_cache C P)"
proof -
  have "setup_inv ins C n (fold (setup_cache_agent C) [0..<n] P)" if "n \<le> ins_N ins" for n
    using that
  proof (induction n)
    case 0
    with assms(1) show ?case by (simp add: setup_inv_def)
  next
    case (Suc n)
    then have "setup_inv ins C n (fold (setup_cache_agent C) [0..<n] P)" "n < ins_N ins" by simp_all
    from setup_cache_agent_inv[OF this assms(2)] show ?case by simp
  qed
  from this[of "ins_N ins"] assms(1) show ?thesis
    by (simp add: setup_cache_def planner_inv_def)
qed

text \<open>After the set-up nobody has a next vertex and no vertex is reserved.\<close>

definition unplanned :: "Instance \<Rightarrow> 'r Planner \<Rightarrow> bool" where
  "unplanned ins P =
     ((\<forall>a<ins_N ins. vnext P a = None) \<and> (\<forall>u<length (ins_G ins). occupied_next P ! u = None))"

lemma setup_cache_ok:
  assumes "planner_inv ins P" "config_ok ins C"
  shows "planner_ok ins C (setup_cache C P)" and "unplanned ins (setup_cache C P)"
proof -
  let ?P = "setup_cache C P"
  note s = setup_cache_inv[OF assms]
  then have inv: "planner_inv ins ?P"
    and a: "\<And>a. a < ins_N ins \<Longrightarrow> vnow ?P a = Some (C ! a) \<and> occupied_now ?P ! (C ! a) = Some a \<and> vnext ?P a = None"
    by (simp_all add: setup_inv_def)
  show "planner_ok ins C ?P"
    unfolding planner_ok_def
  proof (intro conjI allI impI)
    fix v b assume "v < length (ins_G ins)" "occupied_now ?P ! v = Some b"
    with inv have b: "b < ins_N ins" "vnow ?P b = Some v" by (simp_all add: planner_inv_def)
    then show "b < ins_N ins" by simp
    from a[OF b(1)] b(2) show "C ! b = v" by simp
  qed (use inv a in \<open>simp_all add: planner_inv_def\<close>)
  show "unplanned ins ?P"
    unfolding unplanned_def
  proof (intro conjI allI impI)
    fix u assume u: "u < length (ins_G ins)"
    show "occupied_next ?P ! u = None"
    proof (rule ccontr)
      assume "occupied_next ?P ! u \<noteq> None"
      then obtain b where "occupied_next ?P ! u = Some b" by auto
      with inv u have "b < ins_N ins" "vnext ?P b = Some u" by (simp_all add: planner_inv_def binv_def)
      with a[of b] show False by simp
    qed
  qed (use a in simp)
qed

lemma unplanned_tables:
  assumes "unplanned ins P"
  shows "good ins C P" and "tables_call ins P"
  using assms by (auto simp: unplanned_def good_def live_def tables_call_def cons_def binv_def)

subsection \<open>A failed priority inheritance gives the reservation back\<close>

lemma mset_insert_sorted: "mset (insert_sorted lt x ys) = add_mset x (mset ys)"
  by (induction ys) simp_all

lemma mset_insertion_sort: "mset (insertion_sort lt xs) = mset xs"
proof -
  have "mset (foldl (\<lambda>ys x. insert_sorted lt x ys) acc xs) = mset acc + mset xs" for acc
    by (induction xs arbitrary: acc) (simp_all add: mset_insert_sorted)
  then show ?thesis by (simp add: insertion_sort_def)
qed

lemma env_ok_det_env: "env_ok (det_env d flg)"
  by (simp add: env_ok_def det_env_def mset_insertion_sort)

text \<open>
  Two agents face each other at the end of the path 0 - 1 - 2: agent 0 stands on vertex 1
  and wants to reach vertex 2, agent 1 stands on vertex 2 and wants to reach vertex 1.
  \<open>corridor_head\<close> is the state at the head of the loop of \<open>funcPIBT\<close> for agent 0, whose
  first candidate is vertex 2; the last two are the tables after agent 1, asked to give way,
  has failed.
\<close>

definition corridor_ins :: Instance where
  "corridor_ins = \<lparr>ins_G = [[1], [0, 2], [1]], ins_N = 2, starts = [1, 2], goals = [2, 1]\<rparr>"

definition corridor_D :: "nat \<Rightarrow> nat \<Rightarrow> nat" where
  "corridor_D i v = (if i = 0 then 2 - v else if v = 1 then 0 else 1)"

definition corridor_head :: "unit Planner" where
  "corridor_head = set_candidates (det_env corridor_D False) corridor_ins 0 1
                     (setup_cache (starts corridor_ins) (init_Planner corridor_ins None))"

definition corridor_fail1 :: "unit Planner" where
  "corridor_fail1 = snd (the (funcPIBT1 2 (det_env corridor_D False) corridor_ins 1 (Some 0)
                                (reserve 0 2 corridor_head)))"

definition corridor_fail2 :: "unit Planner" where
  "corridor_fail2 = snd (the (funcPIBT2 2 (det_env corridor_D False) corridor_ins 1
                                (reserve 0 2 corridor_head)))"

lemma graph_ok_corridor: "graph_ok corridor_ins"
  by (auto simp: graph_ok_def corridor_ins_def less_Suc_eq numeral_3_eq_3 nth_Cons')

lemma config_ok_corridor: "config_ok corridor_ins (starts corridor_ins)"
  by (auto simp: config_ok_def corridor_ins_def less_Suc_eq numeral_2_eq_2)

text \<open>
  C8. The graph is undirected and no vertex has more than four neighbours, so that the
  candidates of an agent fit into its row of \<open>C_next\<close>. Agent \<open>ai\<close> is at the head of its
  loop with candidate \<open>u = C_next[ai][k]\<close>, which is free in \<open>occupied_next\<close> and occupied now
  by an agent \<open>ak\<close> without a next vertex; \<open>ai\<close> reserves \<open>u\<close> and calls \<open>funcPIBT\<close> for \<open>ak\<close>,
  which returns false (LaCAM or LaCAM2).
  While the callee runs, \<open>u\<close> is the reservation of \<open>ai\<close>. When it has returned, \<open>ak\<close> stands on
  \<open>u\<close> and has reserved it for itself, no entry of \<open>occupied_next\<close> names \<open>ai\<close> any more, no
  two entries of \<open>occupied_next\<close> name the same agent, and the conditions at the head of the
  loop hold again for the next candidate.
\<close>

theorem failed_inheritance_releases_reservation:
  assumes "config_ok ins C" and "graph_ok ins" and "env_ok env"
    and "loop_pre ins C K v ai P" and "tables_loop ins ai P"
    and "k < K + 1"
    and "occupied_next P ! (C_next P ! ai ! k) = None"
    and "occupied_now P ! (C_next P ! ai ! k) = Some ak"
    and "vnext (reserve ai (C_next P ! ai ! k) P) ak = None"
    and "funcPIBT1 n env ins ak (Some ai) (reserve ai (C_next P ! ai ! k) P) = Some (False, P2)
         \<or> funcPIBT2 n env ins ak (reserve ai (C_next P ! ai ! k) P) = Some (False, P2)"
  shows "occupied_next (reserve ai (C_next P ! ai ! k) P) ! (C_next P ! ai ! k) = Some ai
     \<and> vnow P2 ak = Some (C_next P ! ai ! k)
     \<and> vnext P2 ak = Some (C_next P ! ai ! k)
     \<and> occupied_next P2 ! (C_next P ! ai ! k) = Some ak
     \<and> (\<forall>w<length (ins_G ins). occupied_next P2 ! w \<noteq> Some ai)
     \<and> (\<forall>w<length (ins_G ins). \<forall>w'<length (ins_G ins). \<forall>a.
           occupied_next P2 ! w = Some a \<and> occupied_next P2 ! w' = Some a \<longrightarrow> w = w')
     \<and> loop_pre ins C K v ai P2 \<and> tables_loop ins ai P2"
proof -
  let ?u = "C_next P ! ai ! k"
  let ?P1 = "reserve ai ?u P"
  note pre = assms(4) and t = assms(5)
  note nc = nested_call_pre[OF pre assms(6,8,9)]
  note t1 = tables_free[OF pre t assms(6,7)]
  from pre have ok: "planner_ok ins C P" unfolding loop_pre_def by blast
  have "call_post C ak ?P1 False P2 \<and> tables_post ins C {} ak ?P1 False P2 \<and> planner_frame ?P1 P2"
    using assms(10)
  proof (elim disjE)
    assume r: "funcPIBT1 n env ins ak (Some ai) ?P1 = Some (False, P2)"
    from PIBT1_post(1)[OF assms(1-3) r] PIBT1_tables(1)[OF assms(1-3) r] PIBT1_frame(1)[OF r] nc(1) t1
    show ?thesis by simp
  next
    assume r: "funcPIBT2 n env ins ak ?P1 = Some (False, P2)"
    from PIBT2_post(1)[OF assms(1-3) r] PIBT2_tables(1)[OF assms(1-3) r] PIBT2_frame(1)[OF r] nc(1) t1
    show ?thesis by simp
  qed
  then have cp: "call_post C ak ?P1 False P2" and tp: "tables_post ins C {} ak ?P1 False P2"
    and fr: "planner_frame ?P1 P2"
    by simp_all
  note r = retry_loop_pre[OF pre assms(6,8,9) fr cp]
  note tr = tables_retry(1)[OF assms(1) pre t assms(6,7,8,9) fr cp tp]
  from ok nc(5) have a: "occupied_next ?P1 ! ?u = Some ai" by (simp add: planner_ok_def)
  from r(1) nc(3,4) have b: "vnow P2 ak = Some ?u" by (simp add: loop_pre_def planner_ok_def)
  from cp nc(4) have c: "vnext P2 ak = Some ?u" "occupied_next P2 ! ?u = Some ak"
    by (simp_all add: call_post_def)
  from tr have d: "\<forall>w<length (ins_G ins). occupied_next P2 ! w \<noteq> Some ai"
    by (simp add: tables_loop_def unheld_def)
  from tr have "binv ins P2" by (simp add: tables_loop_def)
  then have e: "\<forall>w<length (ins_G ins). \<forall>w'<length (ins_G ins). \<forall>a.
           occupied_next P2 ! w = Some a \<and> occupied_next P2 ! w' = Some a \<longrightarrow> w = w'"
    unfolding binv_def by (metis option.inject)
  from a b c d e r(1) tr show ?thesis by blast
qed

theorem failed_inheritance_releases_reservation_witness:
  "occupied_next corridor_fail1 ! 2 = Some 1 \<and> vnext corridor_fail1 1 = Some 2
   \<and> occupied_next corridor_fail2 ! 2 = Some 1 \<and> vnext corridor_fail2 1 = Some 2"
proof -
  let ?e = "det_env corridor_D False"
  let ?C = "starts corridor_ins"
  let ?P0 = "setup_cache ?C (init_Planner corridor_ins None) :: unit Planner"
  note C = config_ok_corridor and G = graph_ok_corridor and E = env_ok_det_env[of corridor_D False]
  note s = setup_cache_ok[OF planner_inv_init[of corridor_ins None] C]
  have a: "0 < ins_N corridor_ins" by (simp add: corridor_ins_def)
  from s a have cpre: "call_pre corridor_ins ?C 0 ?P0"
    by (auto simp: call_pre_def unplanned_def)
  from s(1) a have "vnow ?P0 0 = Some (?C ! 0)"
    by (auto simp: planner_ok_def)
  then have now: "vnow ?P0 0 = Some 1"
    by (simp add: corridor_ins_def)
  have K: "length (neighbor_of corridor_ins 1) = 2"
    by (simp add: neighbor_of_def corridor_ins_def)
  from enter_loop_pre[OF C G E cpre now]
  have pre: "loop_pre corridor_ins ?C 2 1 0 corridor_head"
    unfolding K corridor_head_def .
  have t: "tables_loop corridor_ins 0 corridor_head"
    by (rule tables_enter[OF cpre unplanned_tables(2)[OF s(2)]]) (simp_all add: corridor_head_def)
  have u: "C_next corridor_head ! 0 ! 0 = 2" by code_simp
  have k: "(0::nat) < 2 + 1" by simp
  have h1: "occupied_next corridor_head ! (C_next corridor_head ! 0 ! 0) = None" by code_simp
  have h2: "occupied_now corridor_head ! (C_next corridor_head ! 0 ! 0) = Some 1" by code_simp
  have h3: "vnext (reserve 0 (C_next corridor_head ! 0 ! 0) corridor_head) 1 = None" by code_simp
  have r1: "funcPIBT1 2 ?e corridor_ins 1 (Some 0) (reserve 0 (C_next corridor_head ! 0 ! 0) corridor_head)
            = Some (False, corridor_fail1)
          \<or> funcPIBT2 2 ?e corridor_ins 1 (reserve 0 (C_next corridor_head ! 0 ! 0) corridor_head)
            = Some (False, corridor_fail1)"
    by (rule disjI1) code_simp
  have r2: "funcPIBT1 2 ?e corridor_ins 1 (Some 0) (reserve 0 (C_next corridor_head ! 0 ! 0) corridor_head)
            = Some (False, corridor_fail2)
          \<or> funcPIBT2 2 ?e corridor_ins 1 (reserve 0 (C_next corridor_head ! 0 ! 0) corridor_head)
            = Some (False, corridor_fail2)"
    by (rule disjI2) code_simp
  from failed_inheritance_releases_reservation[OF C G E pre t k h1 h2 h3 r1]
    failed_inheritance_releases_reservation[OF C G E pre t k h1 h2 h3 r2]
  show ?thesis unfolding u by blast
qed

end
